theory Spec2Isabelle
  imports Main "HOL-Library.Word"
begin

unbundle bit_operations_syntax

section \<open>Data model of \<open>ndef.py\<close>\<close>

text \<open>
  A Python \<open>bytes\<close> object is a list of 8-bit words; indexing it yields an unbounded
  \<open>int\<close> (\<open>uint\<close>). A Python \<open>str\<close> is a sequence of Unicode code points, kept here
  as a list of naturals; \<open>ustr\<close> embeds an ASCII literal. Cursor positions and lengths
  are Python integers, hence \<open>int\<close>: the sub-decoders do compute negative lengths.
\<close>

type_synonym byte = "8 word"
type_synonym ustring = "nat list"

definition ustr :: "string \<Rightarrow> ustring" where
  "ustr s = map of_char s"

definition nl :: ustring where
  "nl = [10]"

text \<open>
  The exceptions the decoder can raise: the two \<open>ValueError\<close>s of the source and the
  \<open>IndexError\<close> of \<open>bs[0]\<close> on an empty \<open>bytes\<close>. \<open>str_error\<close> is \<open>str(e)\<close>.
\<close>

datatype error = OutOfBounds | ChunkedRecord | IndexError

definition str_error :: "error \<Rightarrow> ustring" where
  "str_error e = (case e of
       OutOfBounds \<Rightarrow> ustr ''Out-of-bounds access in NDEF data''
     | ChunkedRecord \<Rightarrow> ustr ''Chunked records not supported''
     | IndexError \<Rightarrow> ustr ''index out of range'')"

definition ebind :: "error + 'a \<Rightarrow> ('a \<Rightarrow> error + 'b) \<Rightarrow> error + 'b" where
  "ebind m f = (case m of Inl e \<Rightarrow> Inl e | Inr x \<Rightarrow> f x)"

subsection \<open>TLV and TNF constants, URI prefix table\<close>

definition NdefTlvPadding :: int where "NdefTlvPadding = 0x00"
definition NdefTlvLockControl :: int where "NdefTlvLockControl = 0x01"
definition NdefTlvMemoryControl :: int where "NdefTlvMemoryControl = 0x02"
definition NdefTlvNdefMessage :: int where "NdefTlvNdefMessage = 0x03"
definition NdefTlvProprietary :: int where "NdefTlvProprietary = 0xFD"
definition NdefTlvTerminator :: int where "NdefTlvTerminator = 0xFE"

definition NdefTnfWellKnownType :: int where "NdefTnfWellKnownType = 0x01"
definition NdefTnfMediaType :: int where "NdefTnfMediaType = 0x02"

definition ndef_uri_prepends :: "int \<rightharpoonup> ustring" where
  "ndef_uri_prepends = map_of
     [(0x00, ustr ''''),
      (0x01, ustr ''http://www.''),
      (0x02, ustr ''https://www.''),
      (0x03, ustr ''http://''),
      (0x04, ustr ''https://''),
      (0x05, ustr ''tel:''),
      (0x06, ustr ''mailto:'')]"

subsection \<open>Python built-ins used by the decoder\<close>

text \<open>
  \<open>xs[a:b]\<close>: a negative index counts from the end, both indices are clamped to the
  sequence, and an empty range yields the empty sequence.
\<close>

definition clamp_index :: "nat \<Rightarrow> int \<Rightarrow> nat" where
  "clamp_index n i = (if i < 0 then nat (max (i + int n) 0) else min (nat i) n)"

definition py_slice :: "'a list \<Rightarrow> int \<Rightarrow> int \<Rightarrow> 'a list" where
  "py_slice xs a b =
     (let lo = clamp_index (length xs) a; hi = clamp_index (length xs) b
      in take (hi - lo) (drop lo xs))"

text \<open>\<open>bs[0]\<close> on \<open>bytes\<close>.\<close>

definition byte0 :: "byte list \<Rightarrow> error + int" where
  "byte0 bs = (case bs of [] \<Rightarrow> Inl IndexError | b # _ \<Rightarrow> Inr (uint b))"

text \<open>\<open>int.from_bytes(bs, byteorder='big')\<close>.\<close>

definition from_bytes_big :: "byte list \<Rightarrow> int" where
  "from_bytes_big bs = foldl (\<lambda>acc b. acc * 256 + uint b) 0 bs"

text \<open>
  \<open>bs.decode('utf-8', errors='replace')\<close>: well-formed sequences decode to their code
  point; every maximal ill-formed subsequence becomes one U+FFFD. \<open>utf8_step b bs\<close>
  decodes the sequence led by \<open>b\<close> and returns the code point with the number of
  bytes of \<open>bs\<close> it consumed.
\<close>

definition is_cont :: "byte \<Rightarrow> bool" where
  "is_cont b = (0x80 \<le> unat b \<and> unat b \<le> 0xBF)"

definition cont_bits :: "byte \<Rightarrow> nat" where
  "cont_bits b = unat b mod 64"

definition second_ok :: "nat \<Rightarrow> byte \<Rightarrow> bool" where
  "second_ok c b =
     (if c = 0xE0 then 0xA0 \<le> unat b \<and> unat b \<le> 0xBF
      else if c = 0xED then 0x80 \<le> unat b \<and> unat b \<le> 0x9F
      else if c = 0xF0 then 0x90 \<le> unat b \<and> unat b \<le> 0xBF
      else if c = 0xF4 then 0x80 \<le> unat b \<and> unat b \<le> 0x8F
      else is_cont b)"

definition utf8_step :: "byte \<Rightarrow> byte list \<Rightarrow> nat \<times> nat" where
  "utf8_step b bs =
     (let c = unat b in
      if c < 0x80 then (c, 0)
      else if 0xC2 \<le> c \<and> c \<le> 0xDF then
        (case bs of
           b1 # _ \<Rightarrow> if is_cont b1 then ((c mod 32) * 64 + cont_bits b1, 1) else (0xFFFD, 0)
         | [] \<Rightarrow> (0xFFFD, 0))
      else if 0xE0 \<le> c \<and> c \<le> 0xEF then
        (case bs of
           b1 # b2 # _ \<Rightarrow>
             if \<not> second_ok c b1 then (0xFFFD, 0)
             else if \<not> is_cont b2 then (0xFFFD, 1)
             else ((c mod 16) * 4096 + cont_bits b1 * 64 + cont_bits b2, 2)
         | [b1] \<Rightarrow> if second_ok c b1 then (0xFFFD, 1) else (0xFFFD, 0)
         | [] \<Rightarrow> (0xFFFD, 0))
      else if 0xF0 \<le> c \<and> c \<le> 0xF4 then
        (case bs of
           b1 # b2 # b3 # _ \<Rightarrow>
             if \<not> second_ok c b1 then (0xFFFD, 0)
             else if \<not> is_cont b2 then (0xFFFD, 1)
             else if \<not> is_cont b3 then (0xFFFD, 2)
             else ((c mod 8) * 262144 + cont_bits b1 * 4096 + cont_bits b2 * 64 + cont_bits b3, 3)
         | [b1, b2] \<Rightarrow>
             if \<not> second_ok c b1 then (0xFFFD, 0)
             else if \<not> is_cont b2 then (0xFFFD, 1)
             else (0xFFFD, 2)
         | [b1] \<Rightarrow> if second_ok c b1 then (0xFFFD, 1) else (0xFFFD, 0)
         | [] \<Rightarrow> (0xFFFD, 0))
      else (0xFFFD, 0))"

function utf8_decode :: "byte list \<Rightarrow> ustring" where
  "utf8_decode [] = []"
| "utf8_decode (b # bs) = fst (utf8_step b bs) # utf8_decode (drop (snd (utf8_step b bs)) bs)"
  by pat_completeness auto
termination
  by (relation "measure length") auto

text \<open>\<open>f"{b:02X}"\<close> and \<open>" ".join(f"{b:02X}" for b in chunk)\<close>.\<close>

definition hex_digit :: "nat \<Rightarrow> nat" where
  "hex_digit n = (if n < 10 then 48 + n else 55 + n)"

definition hex2 :: "byte \<Rightarrow> ustring" where
  "hex2 b = [hex_digit (unat b div 16), hex_digit (unat b mod 16)]"

fun hex_join :: "byte list \<Rightarrow> ustring" where
  "hex_join [] = []"
| "hex_join [b] = hex2 b"
| "hex_join (b # bs) = hex2 b @ [32] @ hex_join bs"

text \<open>\<open>str.isspace\<close> on one code point, and \<open>str.strip()\<close>.\<close>

definition isspace :: "nat \<Rightarrow> bool" where
  "isspace c =
     ((0x09 \<le> c \<and> c \<le> 0x0D) \<or> (0x1C \<le> c \<and> c \<le> 0x20) \<or> c = 0x85 \<or> c = 0xA0
      \<or> c = 0x1680 \<or> (0x2000 \<le> c \<and> c \<le> 0x200A) \<or> c = 0x2028 \<or> c = 0x2029
      \<or> c = 0x202F \<or> c = 0x205F \<or> c = 0x3000)"

definition strip :: "ustring \<Rightarrow> ustring" where
  "strip s = rev (dropWhile isspace (rev (dropWhile isspace s)))"

section \<open>The bounds-checked buffer view\<close>

text \<open>
  \<open>Ndef.get\<close>. The object's \<open>data\<close> field is never reassigned and \<open>output\<close> is its
  only mutated field, so every function below takes the buffer and the current output
  and returns the new output; a raised exception is \<open>Inl\<close>.
\<close>

definition get :: "byte list \<Rightarrow> int \<Rightarrow> int \<Rightarrow> error + byte list" where
  "get data pos len =
     (if pos + len > int (length data) then Inl OutOfBounds
      else Inr (py_slice data pos (pos + len)))"

text \<open>\<open>ndef.get(pos, 1)[0]\<close>.\<close>

definition get_byte :: "byte list \<Rightarrow> int \<Rightarrow> error + int" where
  "get_byte data pos = ebind (get data pos 1) byte0"

section \<open>Generic dump and the type sub-decoders\<close>

text \<open>
  \<open>Ndef.dump\<close>. The test \<open>all(32 <= b < 127 or b in (9,10,13) for b in chunk)\<close> is
  \<open>printable\<close>.
\<close>

definition printable :: "byte list \<Rightarrow> bool" where
  "printable chunk =
     list_all (\<lambda>b. (32 \<le> uint b \<and> uint b < 127) \<or> uint b = 9 \<or> uint b = 10 \<or> uint b = 13) chunk"

definition dump :: "byte list \<Rightarrow> ustring \<Rightarrow> ustring \<Rightarrow> int \<Rightarrow> int \<Rightarrow> bool \<Rightarrow> error + ustring" where
  "dump data out prefix pos len force_hex =
     ebind (get data pos len) (\<lambda>chunk.
       if \<not> force_hex \<and> printable chunk
       then Inr (out @ (if prefix \<noteq> [] then prefix @ ustr '': '' else []) @ utf8_decode chunk @ nl)
       else Inr (out @ (if prefix \<noteq> [] then prefix @ ustr '': '' else []) @ hex_join chunk @ nl))"

definition parse_ndef_uri :: "byte list \<Rightarrow> ustring \<Rightarrow> int \<Rightarrow> int \<Rightarrow> error + ustring" where
  "parse_ndef_uri data out pos len =
     ebind (get_byte data pos) (\<lambda>prepend_type.
       let pos1 = pos + 1;
           len1 = len - 1;
           prepend = (case ndef_uri_prepends prepend_type of None \<Rightarrow> [] | Some s \<Rightarrow> s)
       in ebind (get data pos1 len1) (\<lambda>uri_payload.
            Inr (out @ ustr ''URI'' @ nl @ prepend @ utf8_decode uri_payload @ nl)))"

definition parse_ndef_text :: "byte list \<Rightarrow> ustring \<Rightarrow> int \<Rightarrow> int \<Rightarrow> error + ustring" where
  "parse_ndef_text data out pos len =
     ebind (get_byte data pos) (\<lambda>lang_len.
       let pos1 = pos + 1;
           len1 = len - 1
       in ebind (get data pos1 lang_len) (\<lambda>language.
            let pos2 = pos1 + lang_len;
                len2 = len1 - lang_len
            in ebind (get data pos2 len2) (\<lambda>text_payload.
                 Inr (out @ ustr ''Text'' @ nl @ utf8_decode text_payload @ nl))))"

definition parse_ndef_bt :: "byte list \<Rightarrow> ustring \<Rightarrow> int \<Rightarrow> int \<Rightarrow> error + ustring" where
  "parse_ndef_bt data out pos len =
     ebind (get data (pos + 2) (len - 2)) (\<lambda>bt_mac.
       Inr (out @ ustr ''BT MAC'' @ nl @ hex_join bt_mac @ nl))"

definition parse_ndef_vcard :: "byte list \<Rightarrow> ustring \<Rightarrow> int \<Rightarrow> int \<Rightarrow> error + ustring" where
  "parse_ndef_vcard data out pos len =
     ebind (get data pos len) (\<lambda>bs.
       Inr (out @ ustr ''Contact'' @ nl @ utf8_decode bs @ nl))"

definition parse_ndef_wifi :: "byte list \<Rightarrow> ustring \<Rightarrow> int \<Rightarrow> int \<Rightarrow> error + ustring" where
  "parse_ndef_wifi data out pos len =
     ebind (get data pos len) (\<lambda>bs.
       Inr (out @ ustr ''WiFi'' @ nl @ hex_join bs @ nl))"

section \<open>Record decoder\<close>

text \<open>
  \<open>bytes_of s\<close> is the \<open>bytes\<close> literal \<open>b"s"\<close>. \<open>dispatch\<close> is the \<open>if\<close>/\<open>elif\<close> chain at
  the end of \<open>parse_ndef_record\<close>; \<open>read_payload_len\<close> and \<open>read_id_len\<close> are its two
  conditional header reads, each returning the value read and the advanced cursor.
  The source also computes the MB and ME bits and never uses them, and never uses
  \<open>message_num\<close>.
\<close>

definition bytes_of :: "string \<Rightarrow> byte list" where
  "bytes_of s = map of_char s"

definition dispatch :: "byte list \<Rightarrow> ustring \<Rightarrow> int \<Rightarrow> byte list \<Rightarrow> int \<Rightarrow> int \<Rightarrow> error + ustring" where
  "dispatch data out tnf type_field pos payload_len =
     (if tnf = NdefTnfWellKnownType then
        (if type_field = bytes_of ''U'' then parse_ndef_uri data out pos payload_len
         else if type_field = bytes_of ''T'' then parse_ndef_text data out pos payload_len
         else dump data out (ustr ''Unknown Well-known'') pos payload_len False)
      else if tnf = NdefTnfMediaType then
        (if type_field = bytes_of ''application/vnd.bluetooth.ep.oob''
           then parse_ndef_bt data out pos payload_len
         else if type_field = bytes_of ''text/vcard'' then parse_ndef_vcard data out pos payload_len
         else if type_field = bytes_of ''application/vnd.wfa.wsc''
           then parse_ndef_wifi data out pos payload_len
         else dump data out (ustr ''Unknown Media'') pos payload_len False)
      else dump data out (ustr ''Unsupported TNF'') pos payload_len False)"

definition read_payload_len :: "byte list \<Rightarrow> int \<Rightarrow> int \<Rightarrow> error + (int \<times> int)" where
  "read_payload_len data sr pos =
     (if sr \<noteq> 0 then ebind (get_byte data pos) (\<lambda>payload_len. Inr (payload_len, pos + 1))
      else ebind (get data pos 4) (\<lambda>bs. Inr (from_bytes_big bs, pos + 4)))"

definition read_id_len :: "byte list \<Rightarrow> int \<Rightarrow> int \<Rightarrow> error + (int \<times> int)" where
  "read_id_len data il pos =
     (if il \<noteq> 0 then ebind (get_byte data pos) (\<lambda>id_len. Inr (id_len, pos + 1))
      else Inr (0, pos))"

definition parse_ndef_record :: "byte list \<Rightarrow> ustring \<Rightarrow> int \<Rightarrow> int \<Rightarrow> error + (int \<times> ustring)" where
  "parse_ndef_record data out pos message_num =
     ebind (get_byte data pos) (\<lambda>flags.
       let pos1 = pos + 1;
           cf = (drop_bit 5 flags) AND 0x1;
           sr = (drop_bit 4 flags) AND 0x1;
           il = (drop_bit 3 flags) AND 0x1;
           tnf = flags AND 0x07
       in if cf \<noteq> 0 then Inl ChunkedRecord
          else ebind (get_byte data pos1) (\<lambda>type_len.
            let pos2 = pos1 + 1
            in ebind (read_payload_len data sr pos2) (\<lambda>(payload_len, pos3).
                 ebind (read_id_len data il pos3) (\<lambda>(id_len, pos4).
                   ebind (get data pos4 type_len) (\<lambda>type_field.
                     let pos5 = pos4 + type_len;
                         pos6 = pos5 + id_len
                     in ebind (dispatch data out tnf type_field pos6 payload_len) (\<lambda>out'.
                          Inr (pos6 + payload_len, out')))))))"

subsection \<open>Progress of the record decoder\<close>

lemma ebind_Inl [simp]: "ebind (Inl e) f = Inl e"
  by (simp add: ebind_def)

lemma ebind_Inr [simp]: "ebind (Inr x) f = f x"
  by (simp add: ebind_def)

lemma ebind_eq_Inr: "ebind m f = Inr y \<longleftrightarrow> (\<exists>x. m = Inr x \<and> f x = Inr y)"
  by (cases m) simp_all

lemma ebind_eq_Inl: "ebind m f = Inl e \<longleftrightarrow> m = Inl e \<or> (\<exists>x. m = Inr x \<and> f x = Inl e)"
  by (cases m) simp_all

lemma byte0_range: "byte0 bs = Inr v \<Longrightarrow> 0 \<le> v \<and> v < 256"
proof (cases bs)
  case Nil
  assume "byte0 bs = Inr v"
  with Nil show ?thesis by (simp add: byte0_def)
next
  case (Cons b rest)
  assume "byte0 bs = Inr v"
  with Cons have "v = uint b" by (simp add: byte0_def)
  moreover have "uint b < 2 ^ LENGTH(8)" by (rule uint_bounded)
  ultimately show ?thesis by simp
qed

lemma get_byte_range: "get_byte data pos = Inr v \<Longrightarrow> 0 \<le> v \<and> v < 256"
  by (auto simp: get_byte_def ebind_eq_Inr dest: byte0_range)

lemma from_bytes_big_acc_nonneg: "0 \<le> a \<Longrightarrow> 0 \<le> foldl (\<lambda>acc b. acc * 256 + uint (b :: byte)) a bs"
  by (induction bs arbitrary: a) simp_all

lemma from_bytes_big_nonneg: "0 \<le> from_bytes_big bs"
  by (simp add: from_bytes_big_def from_bytes_big_acc_nonneg)

lemma read_payload_len_progress:
  "read_payload_len data sr pos = Inr (payload_len, pos') \<Longrightarrow> 0 \<le> payload_len \<and> pos < pos'"
  by (auto simp: read_payload_len_def ebind_eq_Inr from_bytes_big_nonneg
           dest: get_byte_range split: if_splits)

lemma read_id_len_progress:
  "read_id_len data il pos = Inr (id_len, pos') \<Longrightarrow> 0 \<le> id_len \<and> pos \<le> pos'"
  by (auto simp: read_id_len_def ebind_eq_Inr dest: get_byte_range split: if_splits)

lemma parse_ndef_record_progress:
  assumes "parse_ndef_record data out pos message_num = Inr (pos', out')"
  shows "pos + 3 \<le> pos'"
proof -
  from assms obtain flags type_len payload_len pos3 id_len pos4 where
    tl: "get_byte data (pos + 1) = Inr type_len" and
    pl: "read_payload_len data (drop_bit 4 flags AND 1) (pos + 1 + 1) = Inr (payload_len, pos3)" and
    il: "read_id_len data (drop_bit 3 flags AND 1) pos3 = Inr (id_len, pos4)" and
    p': "pos' = pos4 + type_len + id_len + payload_len"
    by (auto simp: parse_ndef_record_def ebind_eq_Inr Let_def split: if_splits)
  from get_byte_range [OF tl] read_payload_len_progress [OF pl] read_id_len_progress [OF il] p'
  show ?thesis by linarith
qed

section \<open>Message decoder\<close>

text \<open>
  The \<open>while pos < end\<close> loop of \<open>parse_ndef_message\<close>, with the cursor and the output
  threaded through; it terminates because every successful record advances the cursor.
\<close>

function parse_ndef_message_loop ::
  "byte list \<Rightarrow> ustring \<Rightarrow> int \<Rightarrow> int \<Rightarrow> int \<Rightarrow> error + (int \<times> ustring)" where
  "parse_ndef_message_loop data out pos endp message_num =
     (if pos < endp then
        (case parse_ndef_record data out pos message_num of
           Inl e \<Rightarrow> Inl e
         | Inr (pos', out') \<Rightarrow> parse_ndef_message_loop data out' pos' endp message_num)
      else Inr (pos, out))"
  by pat_completeness auto
termination
proof (relation "measure (\<lambda>(data, out, pos, endp, message_num). nat (endp - pos))")
  show "wf (measure (\<lambda>(data, out, pos, endp, message_num). nat (endp - pos)))"
    by simp
next
  fix data :: "byte list" and out :: ustring and pos endp message_num :: int
    and x2 :: "int \<times> ustring" and x y
  assume "pos < endp" and "parse_ndef_record data out pos message_num = Inr x2" and "(x, y) = x2"
  then have "pos + 3 \<le> x"
    using parse_ndef_record_progress [of data out pos message_num x y] by simp
  with \<open>pos < endp\<close>
  show "((data, y, x, endp, message_num), (data, out, pos, endp, message_num))
          \<in> measure (\<lambda>(data, out, pos, endp, message_num). nat (endp - pos))"
    by simp
qed

definition parse_ndef_message ::
  "byte list \<Rightarrow> ustring \<Rightarrow> int \<Rightarrow> int \<Rightarrow> int \<Rightarrow> error + (int \<times> ustring)" where
  "parse_ndef_message data out pos len message_num =
     parse_ndef_message_loop data out pos (pos + len) message_num"

declare parse_ndef_message_loop.simps [simp del]

lemma parse_ndef_message_loop_done:
  "\<not> pos < endp \<Longrightarrow> parse_ndef_message_loop data out pos endp message_num = Inr (pos, out)"
  by (subst parse_ndef_message_loop.simps) simp

lemma parse_ndef_message_loop_step:
  "pos < endp \<Longrightarrow>
   parse_ndef_message_loop data out pos endp message_num =
     (case parse_ndef_record data out pos message_num of
        Inl e \<Rightarrow> Inl e
      | Inr (pos', out') \<Rightarrow> parse_ndef_message_loop data out' pos' endp message_num)"
  by (subst parse_ndef_message_loop.simps) simp

lemma parse_ndef_message_loop_mono:
  "parse_ndef_message_loop data out pos endp message_num = Inr (pos', out') \<Longrightarrow> pos \<le> pos'"
proof (induction data out pos endp message_num rule: parse_ndef_message_loop.induct)
  case (1 data out pos endp message_num)
  show ?case
  proof (cases "pos < endp")
    case False
    with "1.prems" show ?thesis by (simp add: parse_ndef_message_loop_done)
  next
    case True
    with "1.prems" obtain p1 o1 where
      r: "parse_ndef_record data out pos message_num = Inr (p1, o1)" and
      l: "parse_ndef_message_loop data o1 p1 endp message_num = Inr (pos', out')"
      by (auto simp: parse_ndef_message_loop_step split: sum.splits)
    from "1.IH" [OF True r refl l] parse_ndef_record_progress [OF r]
    show ?thesis by simp
  qed
qed

section \<open>TLV scanner\<close>

text \<open>
  One iteration of the \<open>while pos < end\<close> loop of \<open>parse_ndef_tlv\<close> either goes round
  again with a new cursor, message count and output, or executes a \<open>return\<close>.
  \<open>read_tlv_len\<close> is the length field (1 byte, or \<open>0xFF\<close> and 2 bytes big-endian).
\<close>

datatype tlv_step = Continue int int ustring | Return int ustring

definition read_tlv_len :: "byte list \<Rightarrow> int \<Rightarrow> error + (int \<times> int)" where
  "read_tlv_len data pos =
     ebind (get_byte data pos) (\<lambda>len_type.
       let pos1 = pos + 1
       in if len_type < 0xFF then Inr (len_type, pos1)
          else ebind (get data pos1 2) (\<lambda>bs. Inr (from_bytes_big bs, pos1 + 2)))"

definition tlv_body :: "byte list \<Rightarrow> ustring \<Rightarrow> int \<Rightarrow> int \<Rightarrow> error + tlv_step" where
  "tlv_body data out pos message_count =
     ebind (get_byte data pos) (\<lambda>tlv_type.
       let pos1 = pos + 1
       in if tlv_type = NdefTlvPadding then Inr (Continue pos1 message_count out)
          else if tlv_type = NdefTlvTerminator then Inr (Return message_count out)
          else if tlv_type = NdefTlvLockControl \<or> tlv_type = NdefTlvMemoryControl
                  \<or> tlv_type = NdefTlvProprietary \<or> tlv_type = NdefTlvNdefMessage then
            ebind (read_tlv_len data pos1) (\<lambda>(tlv_len, pos2).
              if tlv_type \<noteq> NdefTlvNdefMessage
              then Inr (Continue (pos2 + tlv_len) message_count out)
              else ebind (parse_ndef_message data out pos2 tlv_len (message_count + 1))
                     (\<lambda>(pos3, out'). Inr (Continue pos3 (message_count + 1) out')))
          else Inr (Return 0 out))"

lemma read_tlv_len_progress:
  "read_tlv_len data pos = Inr (tlv_len, pos') \<Longrightarrow> 0 \<le> tlv_len \<and> pos < pos'"
  by (auto simp: read_tlv_len_def ebind_eq_Inr Let_def from_bytes_big_nonneg
           dest: get_byte_range split: if_splits)

lemma tlv_body_progress:
  assumes "tlv_body data out pos message_count = Inr (Continue pos' mc' out')"
  shows "pos < pos'"
proof -
  from assms obtain tlv_type where
    b: "(if tlv_type = NdefTlvPadding then Inr (Continue (pos + 1) message_count out)
         else if tlv_type = NdefTlvTerminator then Inr (Return message_count out)
         else if tlv_type = NdefTlvLockControl \<or> tlv_type = NdefTlvMemoryControl
                 \<or> tlv_type = NdefTlvProprietary \<or> tlv_type = NdefTlvNdefMessage then
           ebind (read_tlv_len data (pos + 1)) (\<lambda>(tlv_len, pos2).
             if tlv_type \<noteq> NdefTlvNdefMessage
             then Inr (Continue (pos2 + tlv_len) message_count out)
             else ebind (parse_ndef_message data out pos2 tlv_len (message_count + 1))
                    (\<lambda>(pos3, out'). Inr (Continue pos3 (message_count + 1) out')))
         else Inr (Return 0 out)) = Inr (Continue pos' mc' out')"
    by (auto simp: tlv_body_def ebind_eq_Inr Let_def)
  show ?thesis
  proof (cases "tlv_type = NdefTlvPadding")
    case True
    with b show ?thesis by simp
  next
    case False
    with b obtain tlv_len pos2 where
      l: "read_tlv_len data (pos + 1) = Inr (tlv_len, pos2)" and
      c: "(if tlv_type \<noteq> NdefTlvNdefMessage
           then Inr (Continue (pos2 + tlv_len) message_count out)
           else ebind (parse_ndef_message data out pos2 tlv_len (message_count + 1))
                  (\<lambda>(pos3, out'). Inr (Continue pos3 (message_count + 1) out')))
          = Inr (Continue pos' mc' out')"
      by (auto simp: ebind_eq_Inr split: if_splits)
    from read_tlv_len_progress [OF l] have p2: "0 \<le> tlv_len" "pos + 1 < pos2" by simp_all
    show ?thesis
    proof (cases "tlv_type = NdefTlvNdefMessage")
      case False
      with c p2 show ?thesis by simp
    next
      case True
      with c obtain o3 where
        "parse_ndef_message_loop data out pos2 (pos2 + tlv_len) (message_count + 1) = Inr (pos', o3)"
        by (auto simp: ebind_eq_Inr parse_ndef_message_def)
      from parse_ndef_message_loop_mono [OF this] p2 show ?thesis by simp
    qed
  qed
qed

function parse_ndef_tlv_loop ::
  "byte list \<Rightarrow> ustring \<Rightarrow> int \<Rightarrow> int \<Rightarrow> int \<Rightarrow> error + (int \<times> ustring)" where
  "parse_ndef_tlv_loop data out pos endp message_count =
     (if pos < endp then
        (case tlv_body data out pos message_count of
           Inl e \<Rightarrow> Inl e
         | Inr (Return v out') \<Rightarrow> Inr (v, out')
         | Inr (Continue pos' mc' out') \<Rightarrow> parse_ndef_tlv_loop data out' pos' endp mc')
      else Inr (message_count, out))"
  by pat_completeness auto
termination
proof (relation "measure (\<lambda>(data, out, pos, endp, message_count). nat (endp - pos))")
  show "wf (measure (\<lambda>(data, out, pos, endp, message_count). nat (endp - pos)))"
    by simp
next
  fix data :: "byte list" and out :: ustring and pos endp message_count :: int
    and x2 :: tlv_step and x11 x12 x13
  assume "pos < endp" and "tlv_body data out pos message_count = Inr x2"
    and "x2 = Continue x11 x12 x13"
  then have "pos < x11"
    using tlv_body_progress [of data out pos message_count x11 x12 x13] by simp
  with \<open>pos < endp\<close>
  show "((data, x13, x11, endp, x12), (data, out, pos, endp, message_count))
          \<in> measure (\<lambda>(data, out, pos, endp, message_count). nat (endp - pos))"
    by simp
qed

declare parse_ndef_tlv_loop.simps [simp del]

lemma parse_ndef_tlv_loop_done:
  "\<not> pos < endp \<Longrightarrow>
   parse_ndef_tlv_loop data out pos endp message_count = Inr (message_count, out)"
  by (subst parse_ndef_tlv_loop.simps) simp

lemma parse_ndef_tlv_loop_step:
  "pos < endp \<Longrightarrow>
   parse_ndef_tlv_loop data out pos endp message_count =
     (case tlv_body data out pos message_count of
        Inl e \<Rightarrow> Inl e
      | Inr (Return v out') \<Rightarrow> Inr (v, out')
      | Inr (Continue pos' mc' out') \<Rightarrow> parse_ndef_tlv_loop data out' pos' endp mc')"
  by (subst parse_ndef_tlv_loop.simps) simp

text \<open>
  \<open>parse_ndef_tlv\<close> returns the message count; the output it leaves in the object is
  returned with it.
\<close>

definition parse_ndef_tlv ::
  "byte list \<Rightarrow> ustring \<Rightarrow> int \<Rightarrow> int \<Rightarrow> int \<Rightarrow> error + (int \<times> ustring)" where
  "parse_ndef_tlv data out pos len already_parsed =
     parse_ndef_tlv_loop data out pos (pos + len) already_parsed"

section \<open>Entry point\<close>

text \<open>
  \<open>parse_ndef\<close>: the \<open>try\<close> block runs the scanner on a fresh object (empty output);
  \<open>except Exception as e\<close> turns any exception into the error text.
\<close>

definition parse_ndef :: "byte list \<Rightarrow> ustring" where
  "parse_ndef data =
     (case parse_ndef_tlv data [] 0 (int (length data)) 0 of
        Inl e \<Rightarrow> ustr ''Error during parsing: '' @ str_error e
      | Inr (message_count, out) \<Rightarrow>
          if message_count = 0 then ustr ''No NDEF messages found.'' else strip out)"

section \<open>Execution traces of \<open>parse_ndef\<close>\<close>

text \<open>
  \<open>scanner_at data pos mc out\<close>: in the call \<open>parse_ndef data\<close>, the loop of
  \<open>parse_ndef_tlv\<close> tests its condition with cursor \<open>pos\<close>, message count \<open>mc\<close> and
  accumulated output \<open>out\<close>. It starts at \<open>(0, 0, "")\<close> and goes round whenever the
  body ends without \<open>return\<close> or exception.

  \<open>decoder_at data endp mn pos out\<close>: in the same call, the loop of
  \<open>parse_ndef_message\<close>, entered for an NdefMessage TLV whose value ends at \<open>endp\<close>,
  tests its condition with cursor \<open>pos\<close> and output \<open>out\<close>; when \<open>pos < endp\<close> the record
  decoder is called there.
\<close>

inductive scanner_at :: "byte list \<Rightarrow> int \<Rightarrow> int \<Rightarrow> ustring \<Rightarrow> bool" for data where
  scanner_start: "scanner_at data 0 0 []"
| scanner_next:
    "scanner_at data pos mc out \<Longrightarrow> pos < int (length data)
     \<Longrightarrow> tlv_body data out pos mc = Inr (Continue pos' mc' out')
     \<Longrightarrow> scanner_at data pos' mc' out'"

inductive decoder_at :: "byte list \<Rightarrow> int \<Rightarrow> int \<Rightarrow> int \<Rightarrow> ustring \<Rightarrow> bool" for data where
  decoder_start:
    "scanner_at data pos mc out \<Longrightarrow> pos < int (length data)
     \<Longrightarrow> get_byte data pos = Inr NdefTlvNdefMessage
     \<Longrightarrow> read_tlv_len data (pos + 1) = Inr (tlv_len, pos2)
     \<Longrightarrow> decoder_at data (pos2 + tlv_len) (mc + 1) pos2 out"
| decoder_next:
    "decoder_at data endp mn pos out \<Longrightarrow> pos < endp
     \<Longrightarrow> parse_ndef_record data out pos mn = Inr (pos', out')
     \<Longrightarrow> decoder_at data endp mn pos' out'"

section \<open>The loops with an iteration budget\<close>

text \<open>
  The two loops again, each with a budget of loop-body executions: \<open>None\<close> means that
  the loop condition still held when the budget was spent. \<open>tlv_body_bounded m\<close> is the
  scanner's loop body with the budget \<open>m\<close> given to the message decoder's loop, the
  only inner loop, which runs in the NdefMessage branch.
\<close>

fun parse_ndef_message_bounded ::
  "nat \<Rightarrow> byte list \<Rightarrow> ustring \<Rightarrow> int \<Rightarrow> int \<Rightarrow> int \<Rightarrow> (error + (int \<times> ustring)) option" where
  "parse_ndef_message_bounded 0 data out pos endp message_num =
     (if pos < endp then None else Some (Inr (pos, out)))"
| "parse_ndef_message_bounded (Suc n) data out pos endp message_num =
     (if pos < endp then
        (case parse_ndef_record data out pos message_num of
           Inl e \<Rightarrow> Some (Inl e)
         | Inr (pos', out') \<Rightarrow> parse_ndef_message_bounded n data out' pos' endp message_num)
      else Some (Inr (pos, out)))"

definition tlv_body_bounded ::
  "nat \<Rightarrow> byte list \<Rightarrow> ustring \<Rightarrow> int \<Rightarrow> int \<Rightarrow> (error + tlv_step) option" where
  "tlv_body_bounded m data out pos message_count =
     (case get_byte data pos of
        Inl e \<Rightarrow> Some (Inl e)
      | Inr tlv_type \<Rightarrow>
          if tlv_type = NdefTlvNdefMessage then
            (case read_tlv_len data (pos + 1) of
               Inl e \<Rightarrow> Some (Inl e)
             | Inr (tlv_len, pos2) \<Rightarrow>
                 (case parse_ndef_message_bounded m data out pos2 (pos2 + tlv_len)
                         (message_count + 1) of
                    None \<Rightarrow> None
                  | Some (Inl e) \<Rightarrow> Some (Inl e)
                  | Some (Inr (pos3, out')) \<Rightarrow>
                      Some (Inr (Continue pos3 (message_count + 1) out'))))
          else Some (tlv_body data out pos message_count))"

fun parse_ndef_tlv_bounded ::
  "nat \<Rightarrow> nat \<Rightarrow> byte list \<Rightarrow> ustring \<Rightarrow> int \<Rightarrow> int \<Rightarrow> int \<Rightarrow> (error + (int \<times> ustring)) option" where
  "parse_ndef_tlv_bounded 0 m data out pos endp message_count =
     (if pos < endp then None else Some (Inr (message_count, out)))"
| "parse_ndef_tlv_bounded (Suc n) m data out pos endp message_count =
     (if pos < endp then
        (case tlv_body_bounded m data out pos message_count of
           None \<Rightarrow> None
         | Some (Inl e) \<Rightarrow> Some (Inl e)
         | Some (Inr (Return v out')) \<Rightarrow> Some (Inr (v, out'))
         | Some (Inr (Continue pos' mc' out')) \<Rightarrow>
             parse_ndef_tlv_bounded n m data out' pos' endp mc')
      else Some (Inr (message_count, out)))"

section \<open>Notions used in the statements and proofs\<close>

text \<open>
  \<open>agree k d1 d2\<close>: the buffer \<open>d2\<close> is at least as long as \<open>d1\<close> and has the same first
  \<open>k\<close> bytes.
\<close>

definition agree :: "nat \<Rightarrow> byte list \<Rightarrow> byte list \<Rightarrow> bool" where
  "agree k d1 d2 = (length d1 \<le> length d2 \<and> take k d2 = take k d1)"

text \<open>
  Once the cursor stands behind a prefix \<open>a\<close> of the buffer, the decoder behaves on
  \<open>a @ r\<close> as it does on \<open>r\<close> alone, with every position moved by the length of \<open>a\<close>.
  \<open>shift_pos k\<close> moves the cursor in the result of a record or message decode,
  \<open>shift_step k\<close> the cursor in the result of a scanner iteration.
\<close>

definition shift_pos :: "int \<Rightarrow> error + (int \<times> 'a) \<Rightarrow> error + (int \<times> 'a)" where
  "shift_pos k res = (case res of Inl e \<Rightarrow> Inl e | Inr (p, x) \<Rightarrow> Inr (k + p, x))"

definition shift_snd :: "int \<Rightarrow> error + ('a \<times> int) \<Rightarrow> error + ('a \<times> int)" where
  "shift_snd k res = (case res of Inl e \<Rightarrow> Inl e | Inr (x, p) \<Rightarrow> Inr (x, k + p))"

definition shift_step :: "int \<Rightarrow> error + tlv_step \<Rightarrow> error + tlv_step" where
  "shift_step k res =
     (case res of
        Inl e \<Rightarrow> Inl e
      | Inr (Continue p mc out) \<Rightarrow> Inr (Continue (k + p) mc out)
      | Inr (Return v out) \<Rightarrow> Inr (Return v out))"

text \<open>
  \<open>record_tail\<close> is the part of \<open>parse_ndef_record\<close> that follows the payload-length
  field: the optional ID length, the type field, the dispatch and the final cursor.
\<close>

definition record_tail ::
  "byte list \<Rightarrow> ustring \<Rightarrow> int \<Rightarrow> int \<Rightarrow> int \<Rightarrow> int \<Rightarrow> int \<Rightarrow> error + (int \<times> ustring)" where
  "record_tail data out il tnf type_len payload_len pos3 =
     ebind (read_id_len data il pos3) (\<lambda>(id_len, pos4).
       ebind (get data pos4 type_len) (\<lambda>type_field.
         ebind (dispatch data out tnf type_field (pos4 + type_len + id_len) payload_len) (\<lambda>out'.
           Inr (pos4 + type_len + id_len + payload_len, out'))))"

section \<open>Properties of the buffer view\<close>

lemma py_slice_nonneg:
  assumes "0 \<le> a" "0 \<le> b"
  shows "py_slice xs a b = take (nat b - nat a) (drop (nat a) xs)"
proof -
  have tk: "take k ys = take (min k (length ys)) ys" for k and ys :: "'a list"
    by (cases "k \<le> length ys") (simp_all add: min_def)
  show ?thesis
  proof (cases "nat a \<le> length xs")
    case True
    have "min (min m n - k) (n - k) = min (m - k) (n - k)" for m n k :: nat
      by (simp add: min_def)
    then have "min (min (nat b) (length xs) - nat a) (length xs - nat a)
             = min (nat b - nat a) (length xs - nat a)" .
    then have "take (min (nat b) (length xs) - nat a) (drop (nat a) xs)
             = take (nat b - nat a) (drop (nat a) xs)"
      using tk [of "min (nat b) (length xs) - nat a" "drop (nat a) xs"]
            tk [of "nat b - nat a" "drop (nat a) xs"]
      by simp
    with True assms show ?thesis
      by (simp add: py_slice_def clamp_index_def Let_def min_absorb1)
  next
    case False
    with assms show ?thesis
      by (simp add: py_slice_def clamp_index_def Let_def)
  qed
qed

lemma get_nonneg:
  assumes "0 \<le> pos" "0 \<le> pos + len"
  shows "get data pos len =
           (if int (length data) < pos + len then Inl OutOfBounds
            else Inr (take (nat (pos + len) - nat pos) (drop (nat pos) data)))"
  using assms by (simp add: get_def py_slice_nonneg)

text \<open>
  C1. For every buffer and all non-negative \<open>pos\<close> and \<open>len\<close>, \<open>get\<close> raises exactly when
  \<open>pos + len\<close> exceeds the buffer size, the exception then being the out-of-bounds
  \<open>ValueError\<close>, and otherwise returns the \<open>len\<close> bytes of the buffer that start at
  index \<open>pos\<close>.
\<close>

theorem get_contract:
  assumes "0 \<le> pos" and "0 \<le> len"
  shows "((\<exists>e. get data pos len = Inl e) \<longleftrightarrow> int (length data) < pos + len)
       \<and> (get data pos len = Inl OutOfBounds \<longleftrightarrow> int (length data) < pos + len)
       \<and> (pos + len \<le> int (length data) \<longrightarrow>
            get data pos len = Inr (take (nat len) (drop (nat pos) data))
            \<and> length (take (nat len) (drop (nat pos) data)) = nat len)"
proof -
  from assms have n: "nat (pos + len) - nat pos = nat len" by linarith
  from assms have g: "get data pos len =
      (if int (length data) < pos + len then Inl OutOfBounds
       else Inr (take (nat len) (drop (nat pos) data)))"
    by (simp add: get_nonneg n)
  show ?thesis
  proof (cases "int (length data) < pos + len")
    case True
    with g show ?thesis by simp
  next
    case False
    with assms have "nat len \<le> length data - nat pos" by linarith
    with False g show ?thesis by simp
  qed
qed

theorem get_contract_witness:
  "get [1, 2, 3, 4] 1 2 = Inr [2, 3] \<and> get [1, 2, 3, 4] 3 2 = Inl OutOfBounds"
proof -
  have a: "(0::int) \<le> 1" and b: "(0::int) \<le> 2" and c: "(0::int) \<le> 3" by simp_all
  from get_contract [OF a b, of "[1, 2, 3, 4]"] have "get [1, 2, 3, 4] 1 2 = Inr [2, 3]"
    by (simp add: numeral_2_eq_2)
  moreover from get_contract [OF c b, of "[1, 2, 3, 4]"] have "get [1, 2, 3, 4] 3 2 = Inl OutOfBounds"
    by simp
  ultimately show ?thesis by simp
qed

section \<open>Concrete scenarios\<close>

text \<open>The equations that evaluate the decoder on a concrete buffer.\<close>

lemmas ndef_eval =
  parse_ndef_def parse_ndef_tlv_def parse_ndef_tlv_loop_step parse_ndef_tlv_loop_done
  tlv_body_def read_tlv_len_def parse_ndef_message_def parse_ndef_message_loop_step
  parse_ndef_message_loop_done parse_ndef_record_def read_payload_len_def read_id_len_def
  dispatch_def parse_ndef_uri_def parse_ndef_text_def parse_ndef_bt_def parse_ndef_vcard_def
  parse_ndef_wifi_def dump_def printable_def get_byte_def get_def py_slice_def clamp_index_def
  byte0_def from_bytes_big_def NdefTlvPadding_def NdefTlvLockControl_def
  NdefTlvMemoryControl_def NdefTlvNdefMessage_def NdefTlvProprietary_def NdefTlvTerminator_def
  NdefTnfWellKnownType_def NdefTnfMediaType_def ndef_uri_prepends_def ustr_def nl_def
  bytes_of_def utf8_step_def strip_def isspace_def str_error_def hex2_def hex_digit_def Let_def

text \<open>
  C3. The 14-byte buffer \<open>03 0B D1 01 07 55 01 6E 66 63 2E 72 65 FE\<close> parses without
  error: the scanner counts exactly one NDEF message and the returned text is
  \<open>URI\<close>, a line feed and \<open>http://www.nfc.re\<close>.
\<close>

theorem scenario_uri_nfc_re:
  "parse_ndef_tlv [0x03, 0x0B, 0xD1, 0x01, 0x07, 0x55, 0x01, 0x6E, 0x66, 0x63, 0x2E, 0x72, 0x65, 0xFE]
       [] 0 14 0
     = Inr (1, ustr ''URI'' @ nl @ ustr ''http://www.nfc.re'' @ nl)
   \<and> parse_ndef [0x03, 0x0B, 0xD1, 0x01, 0x07, 0x55, 0x01, 0x6E, 0x66, 0x63, 0x2E, 0x72, 0x65, 0xFE]
     = ustr ''URI'' @ nl @ ustr ''http://www.nfc.re''"
  by (simp add: ndef_eval)

text \<open>
  C7, as stated, fails: on the 7-byte buffer \<open>03 05 F1 01 01 55 00\<close> the parse does not
  end in the out-of-bounds error and the result is not its message.
\<close>

theorem scenario_f1_not_out_of_bounds:
  "parse_ndef_tlv [0x03, 0x05, 0xF1, 0x01, 0x01, 0x55, 0x00] [] 0 7 0 \<noteq> Inl OutOfBounds
   \<and> parse_ndef [0x03, 0x05, 0xF1, 0x01, 0x01, 0x55, 0x00]
       \<noteq> ustr ''Error during parsing: Out-of-bounds access in NDEF data''"
  by (simp add: ndef_eval)

text \<open>
  C7, amended. The flags byte \<open>F1\<close> of that buffer has the CF bit set, so the parse
  fails with the chunked-record error; the result is that error message alone, with no
  partial \<open>URI\<close> text.
\<close>

theorem scenario_f1_chunked:
  "parse_ndef_tlv [0x03, 0x05, 0xF1, 0x01, 0x01, 0x55, 0x00] [] 0 7 0 = Inl ChunkedRecord
   \<and> parse_ndef [0x03, 0x05, 0xF1, 0x01, 0x01, 0x55, 0x00]
       = ustr ''Error during parsing: Chunked records not supported''"
  by (simp add: ndef_eval)

section \<open>Which exceptions can be raised\<close>

lemma get_error: "get data pos len = Inl e \<Longrightarrow> e = OutOfBounds"
  by (simp add: get_def split: if_splits)

lemma get_byte_nonneg:
  assumes "0 \<le> pos"
  shows "get_byte data pos =
           (if int (length data) < pos + 1 then Inl OutOfBounds
            else Inr (uint (data ! nat pos)))"
proof (cases "int (length data) < pos + 1")
  case True
  with assms show ?thesis by (simp add: get_byte_def get_nonneg)
next
  case False
  with assms have lt: "nat pos < length data" by linarith
  from assms have "nat (pos + 1) - nat pos = Suc 0" by linarith
  with assms False have "get data pos 1 = Inr (take (Suc 0) (drop (nat pos) data))"
    by (simp add: get_nonneg)
  also from lt have "take (Suc 0) (drop (nat pos) data) = [data ! nat pos]"
    by (simp add: Cons_nth_drop_Suc [symmetric])
  finally show ?thesis using False by (simp add: get_byte_def byte0_def)
qed

lemma get_byte_error: "0 \<le> pos \<Longrightarrow> get_byte data pos = Inl e \<Longrightarrow> e = OutOfBounds"
  by (simp add: get_byte_nonneg split: if_splits)

lemma dump_error: "dump data out prefix pos len fh = Inl e \<Longrightarrow> e = OutOfBounds"
  by (auto simp: dump_def ebind_eq_Inl dest: get_error split: if_splits)

lemma parse_ndef_uri_error:
  "0 \<le> pos \<Longrightarrow> parse_ndef_uri data out pos len = Inl e \<Longrightarrow> e = OutOfBounds"
  by (auto simp: parse_ndef_uri_def ebind_eq_Inl Let_def dest: get_error get_byte_error)

lemma parse_ndef_text_error:
  "0 \<le> pos \<Longrightarrow> parse_ndef_text data out pos len = Inl e \<Longrightarrow> e = OutOfBounds"
  by (auto simp: parse_ndef_text_def ebind_eq_Inl Let_def dest: get_error get_byte_error)

lemma parse_ndef_bt_error: "parse_ndef_bt data out pos len = Inl e \<Longrightarrow> e = OutOfBounds"
  by (auto simp: parse_ndef_bt_def ebind_eq_Inl dest: get_error)

lemma parse_ndef_vcard_error: "parse_ndef_vcard data out pos len = Inl e \<Longrightarrow> e = OutOfBounds"
  by (auto simp: parse_ndef_vcard_def ebind_eq_Inl dest: get_error)

lemma parse_ndef_wifi_error: "parse_ndef_wifi data out pos len = Inl e \<Longrightarrow> e = OutOfBounds"
  by (auto simp: parse_ndef_wifi_def ebind_eq_Inl dest: get_error)

lemma dispatch_error:
  "0 \<le> pos \<Longrightarrow> dispatch data out tnf type_field pos len = Inl e \<Longrightarrow> e = OutOfBounds"
  by (auto simp: dispatch_def split: if_splits
           dest: dump_error parse_ndef_uri_error parse_ndef_text_error parse_ndef_bt_error
                 parse_ndef_vcard_error parse_ndef_wifi_error)

lemma read_payload_len_error:
  "0 \<le> pos \<Longrightarrow> read_payload_len data sr pos = Inl e \<Longrightarrow> e = OutOfBounds"
  by (auto simp: read_payload_len_def ebind_eq_Inl dest: get_error get_byte_error split: if_splits)

lemma read_id_len_error:
  "0 \<le> pos \<Longrightarrow> read_id_len data il pos = Inl e \<Longrightarrow> e = OutOfBounds"
  by (auto simp: read_id_len_def ebind_eq_Inl dest: get_byte_error split: if_splits)

lemma read_tlv_len_error:
  "0 \<le> pos \<Longrightarrow> read_tlv_len data pos = Inl e \<Longrightarrow> e = OutOfBounds"
  by (auto simp: read_tlv_len_def ebind_eq_Inl Let_def dest: get_error get_byte_error split: if_splits)

lemma parse_ndef_record_Inr:
  "parse_ndef_record data out pos mn = Inr (pos', out') \<longleftrightarrow>
     (\<exists>flags type_len payload_len pos3 id_len pos4 type_field.
        get_byte data pos = Inr flags \<and> drop_bit 5 flags AND 1 = 0
      \<and> get_byte data (pos + 1) = Inr type_len
      \<and> read_payload_len data (drop_bit 4 flags AND 1) (pos + 2) = Inr (payload_len, pos3)
      \<and> read_id_len data (drop_bit 3 flags AND 1) pos3 = Inr (id_len, pos4)
      \<and> get data pos4 type_len = Inr type_field
      \<and> dispatch data out (flags AND 7) type_field (pos4 + type_len + id_len) payload_len = Inr out'
      \<and> pos' = pos4 + type_len + id_len + payload_len)"
  by (auto simp: parse_ndef_record_def ebind_eq_Inr Let_def add.assoc split: if_splits)

lemma parse_ndef_record_error:
  assumes "0 \<le> pos" and "parse_ndef_record data out pos mn = Inl e"
  shows "e = OutOfBounds \<or> e = ChunkedRecord"
proof (cases "get_byte data pos")
  case (Inl e')
  with assms show ?thesis by (auto simp: parse_ndef_record_def dest: get_byte_error)
next
  case flags: (Inr flags)
  show ?thesis
  proof (cases "drop_bit 5 flags AND 1 = 0")
    case False
    with flags assms show ?thesis by (simp add: parse_ndef_record_def Let_def)
  next
    case cf: True
    show ?thesis
    proof (cases "get_byte data (pos + 1)")
      case (Inl e')
      from assms have "0 \<le> pos + 1" by simp
      from get_byte_error [OF this] Inl flags cf assms show ?thesis
        by (auto simp: parse_ndef_record_def Let_def)
    next
      case tl: (Inr type_len)
      show ?thesis
      proof (cases "read_payload_len data (drop_bit 4 flags AND 1) (pos + 1 + 1)")
        case (Inl e')
        from assms have "0 \<le> pos + 1 + 1" by simp
        from read_payload_len_error [OF this] Inl flags cf tl assms show ?thesis
          by (auto simp: parse_ndef_record_def Let_def)
      next
        case (Inr pl)
        then obtain payload_len pos3 where
          pl: "read_payload_len data (drop_bit 4 flags AND 1) (pos + 1 + 1) = Inr (payload_len, pos3)"
          by (cases pl) simp
        from read_payload_len_progress [OF pl] assms have p3: "0 \<le> pos3" "0 \<le> payload_len" by simp_all
        show ?thesis
        proof (cases "read_id_len data (drop_bit 3 flags AND 1) pos3")
          case (Inl e')
          from read_id_len_error [OF p3(1)] Inl flags cf tl pl assms show ?thesis
            by (auto simp: parse_ndef_record_def Let_def)
        next
          case (Inr il)
          then obtain id_len pos4 where
            il: "read_id_len data (drop_bit 3 flags AND 1) pos3 = Inr (id_len, pos4)"
            by (cases il) simp
          from read_id_len_progress [OF il] p3 have p4: "0 \<le> pos4" "0 \<le> id_len" by simp_all
          from get_byte_range [OF tl] have t0: "0 \<le> type_len" by simp
          from flags cf tl pl il assms have
            "ebind (get data pos4 type_len) (\<lambda>type_field.
               ebind (dispatch data out (flags AND 7) type_field (pos4 + type_len + id_len) payload_len)
                 (\<lambda>out'. Inr (pos4 + type_len + id_len + payload_len, out'))) = Inl e"
            by (simp add: parse_ndef_record_def Let_def)
          then consider "get data pos4 type_len = Inl e"
            | type_field where "dispatch data out (flags AND 7) type_field (pos4 + type_len + id_len) payload_len = Inl e"
            by (auto simp: ebind_eq_Inl)
          then show ?thesis
          proof cases
            case 1
            then show ?thesis by (simp add: get_error)
          next
            case 2
            from p4 t0 have "0 \<le> pos4 + type_len + id_len" by simp
            from dispatch_error [OF this 2] show ?thesis by simp
          qed
        qed
      qed
    qed
  qed
qed

lemma parse_ndef_message_loop_error:
  "0 \<le> pos \<Longrightarrow> parse_ndef_message_loop data out pos endp mn = Inl e
   \<Longrightarrow> e = OutOfBounds \<or> e = ChunkedRecord"
proof (induction data out pos endp mn rule: parse_ndef_message_loop.induct)
  case (1 data out pos endp mn)
  show ?case
  proof (cases "pos < endp")
    case False
    with "1.prems" show ?thesis by (simp add: parse_ndef_message_loop_done)
  next
    case True
    show ?thesis
    proof (cases "parse_ndef_record data out pos mn")
      case (Inl e')
      with True "1.prems" have "parse_ndef_record data out pos mn = Inl e"
        by (simp add: parse_ndef_message_loop_step)
      from parse_ndef_record_error [OF "1.prems"(1) this] show ?thesis .
    next
      case (Inr r)
      then obtain p1 o1 where r: "parse_ndef_record data out pos mn = Inr (p1, o1)"
        by (cases r) simp
      with True "1.prems" have l: "parse_ndef_message_loop data o1 p1 endp mn = Inl e"
        by (simp add: parse_ndef_message_loop_step)
      from parse_ndef_record_progress [OF r] "1.prems"(1) have "0 \<le> p1" by simp
      from "1.IH" [OF True r refl this l] show ?thesis .
    qed
  qed
qed

lemma tlv_body_error:
  assumes "0 \<le> pos" and "tlv_body data out pos mc = Inl e"
  shows "e = OutOfBounds \<or> e = ChunkedRecord"
proof (cases "get_byte data pos")
  case (Inl e')
  with assms show ?thesis by (auto simp: tlv_body_def dest: get_byte_error)
next
  case t: (Inr tlv_type)
  show ?thesis
  proof (cases "read_tlv_len data (pos + 1)")
    case (Inl e')
    from assms have "0 \<le> pos + 1" by simp
    from read_tlv_len_error [OF this] Inl t assms show ?thesis
      by (auto simp: tlv_body_def Let_def split: if_splits)
  next
    case (Inr r)
    then obtain tlv_len pos2 where l: "read_tlv_len data (pos + 1) = Inr (tlv_len, pos2)"
      by (cases r) simp
    from read_tlv_len_progress [OF l] assms have p2: "0 \<le> pos2" by simp
    from t l assms have
      "parse_ndef_message_loop data out pos2 (pos2 + tlv_len) (mc + 1) = Inl e"
      by (auto simp: tlv_body_def Let_def ebind_eq_Inl parse_ndef_message_def split: if_splits)
    from parse_ndef_message_loop_error [OF p2 this] show ?thesis .
  qed
qed

lemma parse_ndef_tlv_loop_error:
  "0 \<le> pos \<Longrightarrow> parse_ndef_tlv_loop data out pos endp mc = Inl e
   \<Longrightarrow> e = OutOfBounds \<or> e = ChunkedRecord"
proof (induction data out pos endp mc rule: parse_ndef_tlv_loop.induct)
  case (1 data out pos endp mc)
  show ?case
  proof (cases "pos < endp")
    case False
    with "1.prems" show ?thesis by (simp add: parse_ndef_tlv_loop_done)
  next
    case True
    show ?thesis
    proof (cases "tlv_body data out pos mc")
      case (Inl e')
      with True "1.prems" have "tlv_body data out pos mc = Inl e"
        by (simp add: parse_ndef_tlv_loop_step)
      from tlv_body_error [OF "1.prems"(1) this] show ?thesis .
    next
      case (Inr st)
      show ?thesis
      proof (cases st)
        case (Return v o1)
        with Inr True "1.prems" show ?thesis by (simp add: parse_ndef_tlv_loop_step)
      next
        case (Continue p1 m1 o1)
        with Inr have b: "tlv_body data out pos mc = Inr (Continue p1 m1 o1)" by simp
        with True "1.prems" have l: "parse_ndef_tlv_loop data o1 p1 endp m1 = Inl e"
          by (simp add: parse_ndef_tlv_loop_step)
        from tlv_body_progress [OF b] "1.prems"(1) have "0 \<le> p1" by simp
        from "1.IH" [OF True Inr Continue this l] show ?thesis .
      qed
    qed
  qed
qed

text \<open>
  C10. For every buffer, \<open>parse_ndef\<close> returns a string: either the scanner returns and
  the result is the stripped output (or the no-messages text), or the scanner raises
  one of the two \<open>ValueError\<close>s and the result is the single error line made from it.
  On the empty buffer the result is the no-messages text.
\<close>

theorem parse_ndef_never_raises:
  "((\<exists>n out. parse_ndef_tlv data [] 0 (int (length data)) 0 = Inr (n, out)
        \<and> parse_ndef data = (if n = 0 then ustr ''No NDEF messages found.'' else strip out))
    \<or> (parse_ndef_tlv data [] 0 (int (length data)) 0 = Inl OutOfBounds
        \<and> parse_ndef data = ustr ''Error during parsing: Out-of-bounds access in NDEF data'')
    \<or> (parse_ndef_tlv data [] 0 (int (length data)) 0 = Inl ChunkedRecord
        \<and> parse_ndef data = ustr ''Error during parsing: Chunked records not supported''))
   \<and> parse_ndef [] = ustr ''No NDEF messages found.''"
proof
  show "parse_ndef [] = ustr ''No NDEF messages found.''"
    by (simp add: parse_ndef_def parse_ndef_tlv_def parse_ndef_tlv_loop_done)
  show "(\<exists>n out. parse_ndef_tlv data [] 0 (int (length data)) 0 = Inr (n, out)
        \<and> parse_ndef data = (if n = 0 then ustr ''No NDEF messages found.'' else strip out))
    \<or> (parse_ndef_tlv data [] 0 (int (length data)) 0 = Inl OutOfBounds
        \<and> parse_ndef data = ustr ''Error during parsing: Out-of-bounds access in NDEF data'')
    \<or> (parse_ndef_tlv data [] 0 (int (length data)) 0 = Inl ChunkedRecord
        \<and> parse_ndef data = ustr ''Error during parsing: Chunked records not supported'')"
  proof (cases "parse_ndef_tlv data [] 0 (int (length data)) 0")
    case (Inr r)
    then show ?thesis by (cases r) (simp add: parse_ndef_def)
  next
    case (Inl e)
    then have "parse_ndef_tlv_loop data [] 0 (0 + int (length data)) 0 = Inl e"
      by (simp add: parse_ndef_tlv_def)
    from parse_ndef_tlv_loop_error [OF _ this] have "e = OutOfBounds \<or> e = ChunkedRecord"
      by simp
    with Inl show ?thesis
      by (auto simp: parse_ndef_def str_error_def ustr_def)
  qed
qed

section \<open>Properties of the execution traces\<close>

lemma scanner_at_nonneg: "scanner_at data pos mc out \<Longrightarrow> 0 \<le> pos"
proof (induction rule: scanner_at.induct)
  case scanner_start
  show ?case by simp
next
  case (scanner_next pos mc out pos' mc' out')
  from tlv_body_progress [OF scanner_next.hyps(3)] scanner_next.IH show ?case by simp
qed

lemma scanner_at_result:
  "scanner_at data pos mc out \<Longrightarrow>
   parse_ndef_tlv data [] 0 (int (length data)) 0
     = parse_ndef_tlv_loop data out pos (int (length data)) mc"
proof (induction rule: scanner_at.induct)
  case scanner_start
  show ?case by (simp add: parse_ndef_tlv_def)
next
  case (scanner_next pos mc out pos' mc' out')
  then show ?case by (simp add: parse_ndef_tlv_loop_step)
qed

lemma tlv_body_message:
  assumes "get_byte data pos = Inr NdefTlvNdefMessage"
    and "read_tlv_len data (pos + 1) = Inr (tlv_len, pos2)"
  shows "tlv_body data out pos mc =
           ebind (parse_ndef_message_loop data out pos2 (pos2 + tlv_len) (mc + 1))
             (\<lambda>(pos3, out'). Inr (Continue pos3 (mc + 1) out'))"
  using assms
  by (simp add: tlv_body_def Let_def parse_ndef_message_def NdefTlvNdefMessage_def
        NdefTlvPadding_def NdefTlvTerminator_def)

lemma decoder_at_body:
  "decoder_at data endp mn pos out \<Longrightarrow>
   0 \<le> pos \<and>
   (\<exists>spos mc sout. scanner_at data spos mc sout \<and> spos < int (length data) \<and> mn = mc + 1
      \<and> tlv_body data sout spos mc =
          ebind (parse_ndef_message_loop data out pos endp mn)
            (\<lambda>(pos3, out'). Inr (Continue pos3 mn out')))"
proof (induction rule: decoder_at.induct)
  case (decoder_start pos mc out tlv_len pos2)
  from read_tlv_len_progress [OF decoder_start.hyps(4)] scanner_at_nonneg [OF decoder_start.hyps(1)]
  have "0 \<le> pos2" by simp
  moreover from tlv_body_message [OF decoder_start.hyps(3,4)] decoder_start.hyps(1,2)
  have "\<exists>spos mc' sout. scanner_at data spos mc' sout \<and> spos < int (length data) \<and> mc + 1 = mc' + 1
      \<and> tlv_body data sout spos mc' =
          ebind (parse_ndef_message_loop data out pos2 (pos2 + tlv_len) (mc + 1))
            (\<lambda>(pos3, out'). Inr (Continue pos3 (mc + 1) out'))"
    by blast
  ultimately show ?case by simp
next
  case (decoder_next endp mn pos out pos' out')
  from parse_ndef_record_progress [OF decoder_next.hyps(3)] decoder_next.IH
  have "0 \<le> pos'" by simp
  moreover from decoder_next.hyps(2,3)
  have "parse_ndef_message_loop data out pos endp mn = parse_ndef_message_loop data out' pos' endp mn"
    by (simp add: parse_ndef_message_loop_step)
  ultimately show ?case using decoder_next.IH by simp
qed

lemma decoder_at_error:
  assumes "decoder_at data endp mn pos out" and "pos < endp"
    and "parse_ndef_record data out pos mn = Inl e"
  shows "parse_ndef_tlv data [] 0 (int (length data)) 0 = Inl e"
proof -
  from decoder_at_body [OF assms(1)] obtain spos mc sout where
    s: "scanner_at data spos mc sout" "spos < int (length data)" and
    b: "tlv_body data sout spos mc =
          ebind (parse_ndef_message_loop data out pos endp mn)
            (\<lambda>(pos3, out'). Inr (Continue pos3 mn out'))"
    by blast
  from assms(2,3) have "parse_ndef_message_loop data out pos endp mn = Inl e"
    by (simp add: parse_ndef_message_loop_step)
  with b have "tlv_body data sout spos mc = Inl e" by simp
  with s(2) have "parse_ndef_tlv_loop data sout spos (int (length data)) mc = Inl e"
    by (simp add: parse_ndef_tlv_loop_step)
  with scanner_at_result [OF s(1)] show ?thesis by simp
qed

text \<open>
  C4. Whenever, during \<open>parse_ndef data\<close>, the record decoder is called and reads a
  flags byte whose CF bit is set, the scanner ends with the chunked-record exception
  and the result of \<open>parse_ndef\<close> is exactly the one error line, whatever output
  \<open>out\<close> the earlier records had produced.
\<close>

theorem chunked_record_aborts_parse:
  assumes "decoder_at data endp mn pos out" and "pos < endp"
    and "get_byte data pos = Inr flags" and "drop_bit 5 flags AND 1 \<noteq> 0"
  shows "parse_ndef_tlv data [] 0 (int (length data)) 0 = Inl ChunkedRecord
       \<and> parse_ndef data = ustr ''Error during parsing: Chunked records not supported''"
proof -
  from assms(3,4) have "parse_ndef_record data out pos mn = Inl ChunkedRecord"
    by (simp add: parse_ndef_record_def Let_def)
  from decoder_at_error [OF assms(1,2) this] show ?thesis
    by (simp add: parse_ndef_def str_error_def ustr_def)
qed

theorem chunked_record_aborts_parse_witness:
  "decoder_at [0x03, 0x09, 0xD1, 0x01, 0x01, 0x55, 0x00, 0xB1, 0x01, 0x00, 0x55] 11 1 7
     (ustr ''URI'' @ nl @ nl)
   \<and> get_byte [0x03, 0x09, 0xD1, 0x01, 0x01, 0x55, 0x00, 0xB1, 0x01, 0x00, 0x55] 7 = Inr 0xB1
   \<and> parse_ndef [0x03, 0x09, 0xD1, 0x01, 0x01, 0x55, 0x00, 0xB1, 0x01, 0x00, 0x55]
     = ustr ''Error during parsing: Chunked records not supported''"
proof -
  let ?d = "[0x03, 0x09, 0xD1, 0x01, 0x01, 0x55, 0x00, 0xB1, 0x01, 0x00, 0x55] :: byte list"
  have "decoder_at ?d (2 + 9) (0 + 1) 2 []"
    by (rule decoder_start [OF scanner_start]) (simp_all add: ndef_eval)
  then have "decoder_at ?d 11 1 2 []" by simp
  then have d: "decoder_at ?d 11 1 7 (ustr ''URI'' @ nl @ nl)"
    by (rule decoder_next) (simp_all add: ndef_eval)
  have f: "get_byte ?d 7 = Inr 0xB1" by (simp add: ndef_eval)
  have c: "drop_bit 5 (0xB1 :: int) AND 1 \<noteq> 0" by simp
  from chunked_record_aborts_parse [OF d _ f c] d f show ?thesis by simp
qed

text \<open>
  C6. Whenever, during \<open>parse_ndef data\<close>, the scanner reads a type byte that is none of
  \<open>00\<close>, \<open>01\<close>, \<open>02\<close>, \<open>03\<close>, \<open>FD\<close>, \<open>FE\<close>, it returns the count 0 at once, whatever the
  count \<open>mc\<close> of messages decoded so far, and \<open>parse_ndef\<close> reports that no message was
  found.
\<close>

theorem unknown_tlv_type_returns_zero:
  assumes "scanner_at data pos mc out" and "pos < int (length data)"
    and "get_byte data pos = Inr tlv_type"
    and "tlv_type \<noteq> NdefTlvPadding" and "tlv_type \<noteq> NdefTlvLockControl"
    and "tlv_type \<noteq> NdefTlvMemoryControl" and "tlv_type \<noteq> NdefTlvNdefMessage"
    and "tlv_type \<noteq> NdefTlvProprietary" and "tlv_type \<noteq> NdefTlvTerminator"
  shows "tlv_body data out pos mc = Inr (Return 0 out)
       \<and> parse_ndef_tlv data [] 0 (int (length data)) 0 = Inr (0, out)
       \<and> parse_ndef data = ustr ''No NDEF messages found.''"
proof -
  from assms(3-9) have b: "tlv_body data out pos mc = Inr (Return 0 out)"
    by (simp add: tlv_body_def Let_def)
  with assms(2) have "parse_ndef_tlv_loop data out pos (int (length data)) mc = Inr (0, out)"
    by (simp add: parse_ndef_tlv_loop_step)
  with scanner_at_result [OF assms(1)] b show ?thesis
    by (simp add: parse_ndef_def)
qed

theorem unknown_tlv_type_returns_zero_witness:
  "scanner_at [0x03, 0x05, 0xD1, 0x01, 0x01, 0x55, 0x00, 0x04] 7 1 (ustr ''URI'' @ nl @ nl)
   \<and> get_byte [0x03, 0x05, 0xD1, 0x01, 0x01, 0x55, 0x00, 0x04] 7 = Inr 0x04
   \<and> parse_ndef_tlv [0x03, 0x05, 0xD1, 0x01, 0x01, 0x55, 0x00, 0x04] [] 0 8 0
       = Inr (0, ustr ''URI'' @ nl @ nl)
   \<and> parse_ndef [0x03, 0x05, 0xD1, 0x01, 0x01, 0x55, 0x00, 0x04] = ustr ''No NDEF messages found.''"
proof -
  let ?d = "[0x03, 0x05, 0xD1, 0x01, 0x01, 0x55, 0x00, 0x04] :: byte list"
  have s: "scanner_at ?d 7 1 (ustr ''URI'' @ nl @ nl)"
    by (rule scanner_next [OF scanner_start]) (simp_all add: ndef_eval)
  have t: "get_byte ?d 7 = Inr 0x04" by (simp add: ndef_eval)
  from unknown_tlv_type_returns_zero [OF s _ t] s t show ?thesis
    by (simp add: NdefTlvPadding_def NdefTlvLockControl_def NdefTlvMemoryControl_def
          NdefTlvNdefMessage_def NdefTlvProprietary_def NdefTlvTerminator_def)
qed

section \<open>Records stay inside the buffer\<close>

lemma get_Inr_bound: "get data pos len = Inr bs \<Longrightarrow> pos + len \<le> int (length data)"
  by (simp add: get_def split: if_splits)

lemma dispatch_bound:
  assumes "dispatch data out tnf type_field pos len = Inr out'"
  shows "pos + len \<le> int (length data)"
proof -
  from assms consider
      "parse_ndef_uri data out pos len = Inr out'"
    | "parse_ndef_text data out pos len = Inr out'"
    | "parse_ndef_bt data out pos len = Inr out'"
    | "parse_ndef_vcard data out pos len = Inr out'"
    | "parse_ndef_wifi data out pos len = Inr out'"
    | prefix where "dump data out prefix pos len False = Inr out'"
    by (auto simp: dispatch_def split: if_splits)
  then show ?thesis
  proof cases
    case 1
    then obtain bs where "get data (pos + 1) (len - 1) = Inr bs"
      by (auto simp: parse_ndef_uri_def ebind_eq_Inr Let_def)
    from get_Inr_bound [OF this] show ?thesis by simp
  next
    case 2
    then obtain lang_len bs where "get data (pos + 1 + lang_len) (len - 1 - lang_len) = Inr bs"
      by (auto simp: parse_ndef_text_def ebind_eq_Inr Let_def)
    from get_Inr_bound [OF this] show ?thesis by simp
  next
    case 3
    then obtain bs where "get data (pos + 2) (len - 2) = Inr bs"
      by (auto simp: parse_ndef_bt_def ebind_eq_Inr)
    from get_Inr_bound [OF this] show ?thesis by simp
  next
    case 4
    then obtain bs where "get data pos len = Inr bs"
      by (auto simp: parse_ndef_vcard_def ebind_eq_Inr)
    from get_Inr_bound [OF this] show ?thesis .
  next
    case 5
    then obtain bs where "get data pos len = Inr bs"
      by (auto simp: parse_ndef_wifi_def ebind_eq_Inr)
    from get_Inr_bound [OF this] show ?thesis .
  next
    case 6
    then obtain bs where "get data pos len = Inr bs"
      by (auto simp: dump_def ebind_eq_Inr)
    from get_Inr_bound [OF this] show ?thesis .
  qed
qed

lemma parse_ndef_record_bound:
  assumes "parse_ndef_record data out pos mn = Inr (pos', out')"
  shows "pos' \<le> int (length data)"
proof -
  from assms obtain tnf type_field pos6 payload_len where
    "dispatch data out tnf type_field pos6 payload_len = Inr out'" and "pos' = pos6 + payload_len"
    unfolding parse_ndef_record_Inr by blast
  with dispatch_bound show ?thesis by simp
qed

text \<open>
  C2, as stated, fails. In the buffer \<open>03 01 D1 01 01 55 00 FE\<close> the NdefMessage TLV
  declares a value of one byte, the range from 2 to 3. The message decoder, called on
  that range, parses a record that ends at 7, raises nothing, and the parse succeeds.
\<close>

theorem record_past_tlv_end:
  "decoder_at [0x03, 0x01, 0xD1, 0x01, 0x01, 0x55, 0x00, 0xFE] (2 + 1) 1 2 []
   \<and> parse_ndef_record [0x03, 0x01, 0xD1, 0x01, 0x01, 0x55, 0x00, 0xFE] [] 2 1
       = Inr (7, ustr ''URI'' @ nl @ nl)
   \<and> parse_ndef_message [0x03, 0x01, 0xD1, 0x01, 0x01, 0x55, 0x00, 0xFE] [] 2 1 1
       = Inr (7, ustr ''URI'' @ nl @ nl)
   \<and> \<not> (7 :: int) \<le> 2 + 1
   \<and> parse_ndef [0x03, 0x01, 0xD1, 0x01, 0x01, 0x55, 0x00, 0xFE] = ustr ''URI''"
proof -
  let ?d = "[0x03, 0x01, 0xD1, 0x01, 0x01, 0x55, 0x00, 0xFE] :: byte list"
  have "decoder_at ?d (2 + 1) (0 + 1) 2 []"
    by (rule decoder_start [OF scanner_start]) (simp_all add: ndef_eval)
  then show ?thesis by (simp add: ndef_eval)
qed

text \<open>
  C2, amended. Every record the message decoder parses during \<open>parse_ndef data\<close> lies
  entirely within the buffer: either the record decoder succeeds, and the record
  occupies the bytes from \<open>pos\<close> to \<open>pos'\<close> with \<open>pos < pos'\<close> and \<open>pos'\<close> at most the buffer
  size, or it raises and the whole parse aborts with that error. The record is
  checked against the end of the buffer, not against the end \<open>endp\<close> of the enclosing
  TLV's value, past which it may extend.
\<close>

theorem record_within_buffer:
  assumes "decoder_at data endp mn pos out" and "pos < endp"
  shows "(\<exists>pos' out'. parse_ndef_record data out pos mn = Inr (pos', out')
            \<and> 0 \<le> pos \<and> pos < pos' \<and> pos' \<le> int (length data))
       \<or> (\<exists>e. parse_ndef_record data out pos mn = Inl e
            \<and> parse_ndef_tlv data [] 0 (int (length data)) 0 = Inl e)"
proof (cases "parse_ndef_record data out pos mn")
  case (Inl e)
  from decoder_at_error [OF assms Inl] Inl show ?thesis by simp
next
  case (Inr r)
  then obtain pos' out' where r: "parse_ndef_record data out pos mn = Inr (pos', out')"
    by (cases r) simp
  from decoder_at_body [OF assms(1)] have "0 \<le> pos" by simp
  with parse_ndef_record_progress [OF r] parse_ndef_record_bound [OF r] r show ?thesis by simp
qed

theorem record_within_buffer_witness:
  "decoder_at [0x03, 0x01, 0xD1, 0x01, 0x01, 0x55, 0x00, 0xFE] 3 1 2 []
   \<and> parse_ndef_record [0x03, 0x01, 0xD1, 0x01, 0x01, 0x55, 0x00, 0xFE] [] 2 1
       = Inr (7, ustr ''URI'' @ nl @ nl)
   \<and> (7 :: int) \<le> int (length [0x03, 0x01, 0xD1, 0x01, 0x01, 0x55, 0x00, 0xFE :: byte])"
proof -
  let ?d = "[0x03, 0x01, 0xD1, 0x01, 0x01, 0x55, 0x00, 0xFE] :: byte list"
  have "decoder_at ?d (2 + 1) (0 + 1) 2 []"
    by (rule decoder_start [OF scanner_start]) (simp_all add: ndef_eval)
  then have d: "decoder_at ?d 3 1 2 []" by simp
  have r: "parse_ndef_record ?d [] 2 1 = Inr (7, ustr ''URI'' @ nl @ nl)"
    by (simp add: ndef_eval)
  from record_within_buffer [OF d] r d show ?thesis by simp
qed

section \<open>Termination within a bounded number of iterations\<close>

lemma parse_ndef_message_bounded_enough:
  "1 \<le> n \<Longrightarrow> int (length data) - pos \<le> int n \<Longrightarrow>
   parse_ndef_message_bounded n data out pos endp mn
     = Some (parse_ndef_message_loop data out pos endp mn)"
proof (induction n arbitrary: out pos)
  case 0
  then show ?case by simp
next
  case (Suc n)
  show ?case
  proof (cases "pos < endp")
    case False
    then show ?thesis by (simp add: parse_ndef_message_loop_done)
  next
    case True
    show ?thesis
    proof (cases "parse_ndef_record data out pos mn")
      case (Inl e)
      with True show ?thesis by (simp add: parse_ndef_message_loop_step)
    next
      case (Inr r)
      then obtain p1 o1 where r: "parse_ndef_record data out pos mn = Inr (p1, o1)"
        by (cases r) simp
      from parse_ndef_record_progress [OF r] parse_ndef_record_bound [OF r] Suc.prems
      have "1 \<le> n" and "int (length data) - p1 \<le> int n" by linarith+
      from Suc.IH [OF this] True r show ?thesis
        by (simp add: parse_ndef_message_loop_step)
    qed
  qed
qed

lemma get_byte_Inr_bound: "get_byte data pos = Inr v \<Longrightarrow> pos + 1 \<le> int (length data)"
  by (auto simp: get_byte_def ebind_eq_Inr dest: get_Inr_bound)

lemma read_tlv_len_bound:
  "read_tlv_len data pos = Inr (tlv_len, pos') \<Longrightarrow> pos' \<le> int (length data)"
  by (auto simp: read_tlv_len_def ebind_eq_Inr Let_def
           dest: get_Inr_bound get_byte_Inr_bound split: if_splits)

lemma tlv_body_bounded_enough:
  assumes "0 \<le> pos" and "length data \<le> m"
  shows "tlv_body_bounded m data out pos mc = Some (tlv_body data out pos mc)"
proof (cases "get_byte data pos")
  case (Inl e)
  then show ?thesis by (simp add: tlv_body_bounded_def tlv_body_def)
next
  case t: (Inr tlv_type)
  show ?thesis
  proof (cases "tlv_type = NdefTlvNdefMessage")
    case False
    with t show ?thesis by (simp add: tlv_body_bounded_def)
  next
    case True
    show ?thesis
    proof (cases "read_tlv_len data (pos + 1)")
      case (Inl e)
      with t True show ?thesis
        by (simp add: tlv_body_bounded_def tlv_body_def Let_def NdefTlvNdefMessage_def
              NdefTlvPadding_def NdefTlvTerminator_def)
    next
      case (Inr r)
      then obtain tlv_len pos2 where l: "read_tlv_len data (pos + 1) = Inr (tlv_len, pos2)"
        by (cases r) simp
      from read_tlv_len_progress [OF l] read_tlv_len_bound [OF l] assms
      have "1 \<le> m" and "int (length data) - pos2 \<le> int m" by linarith+
      from parse_ndef_message_bounded_enough [OF this]
      have "parse_ndef_message_bounded m data out pos2 (pos2 + tlv_len) (mc + 1)
              = Some (parse_ndef_message_loop data out pos2 (pos2 + tlv_len) (mc + 1))" .
      moreover from t True l have "tlv_body data out pos mc =
           ebind (parse_ndef_message_loop data out pos2 (pos2 + tlv_len) (mc + 1))
             (\<lambda>(pos3, out'). Inr (Continue pos3 (mc + 1) out'))"
        by (simp add: tlv_body_message)
      ultimately show ?thesis using t True l
        by (simp add: tlv_body_bounded_def split: sum.splits)
    qed
  qed
qed

lemma parse_ndef_tlv_bounded_enough:
  "0 \<le> pos \<Longrightarrow> length data \<le> m \<Longrightarrow> int (length data) - pos \<le> int n \<Longrightarrow>
   parse_ndef_tlv_bounded n m data out pos (int (length data)) mc
     = Some (parse_ndef_tlv_loop data out pos (int (length data)) mc)"
proof (induction n arbitrary: out pos mc)
  case 0
  then show ?case by (simp add: parse_ndef_tlv_loop_done)
next
  case (Suc n)
  show ?case
  proof (cases "pos < int (length data)")
    case False
    then show ?thesis by (simp add: parse_ndef_tlv_loop_done)
  next
    case True
    note b = tlv_body_bounded_enough [OF Suc.prems(1,2), of out mc]
    show ?thesis
    proof (cases "tlv_body data out pos mc")
      case (Inl e)
      with True b show ?thesis by (simp add: parse_ndef_tlv_loop_step)
    next
      case (Inr st)
      show ?thesis
      proof (cases st)
        case (Return v o1)
        with Inr True b show ?thesis by (simp add: parse_ndef_tlv_loop_step)
      next
        case (Continue p1 m1 o1)
        with Inr have c: "tlv_body data out pos mc = Inr (Continue p1 m1 o1)" by simp
        from tlv_body_progress [OF c] Suc.prems
        have "0 \<le> p1" and "int (length data) - p1 \<le> int n" by linarith+
        from Suc.IH [OF this(1) Suc.prems(2) this(2)] True b c show ?thesis
          by (simp add: parse_ndef_tlv_loop_step)
      qed
    qed
  qed
qed

text \<open>
  C9. For every buffer the parse terminates. With a budget of \<open>length data\<close> iterations for
  the scanner's loop and for each run of the message decoder's loop, the budgeted
  scanner never runs out and returns what \<open>parse_ndef_tlv\<close> returns, a result or an
  error. The cursor strictly increases in every successful call of the record decoder,
  which is one iteration of the message decoder's loop, and in every iteration of the
  scanner's loop that goes round again.
\<close>

theorem parsing_terminates:
  "parse_ndef_tlv_bounded (length data) (length data) data [] 0 (int (length data)) 0
     = Some (parse_ndef_tlv data [] 0 (int (length data)) 0)
   \<and> (\<forall>out pos mn pos' out'.
         parse_ndef_record data out pos mn = Inr (pos', out') \<longrightarrow> pos < pos')
   \<and> (\<forall>out pos mc pos' mc' out'.
         tlv_body data out pos mc = Inr (Continue pos' mc' out') \<longrightarrow> pos < pos')"
proof (intro conjI allI impI)
  show "parse_ndef_tlv_bounded (length data) (length data) data [] 0 (int (length data)) 0
     = Some (parse_ndef_tlv data [] 0 (int (length data)) 0)"
    using parse_ndef_tlv_bounded_enough [of 0 data "length data" "length data" "[]" 0]
    by (simp add: parse_ndef_tlv_def)
next
  fix out pos mn pos' out'
  assume "parse_ndef_record data out pos mn = Inr (pos', out')"
  from parse_ndef_record_progress [OF this] show "pos < pos'" by simp
next
  fix out pos mc pos' mc' out'
  assume "tlv_body data out pos mc = Inr (Continue pos' mc' out')"
  then show "pos < pos'" by (rule tlv_body_progress)
qed

theorem parsing_terminates_witness:
  "parse_ndef_tlv_bounded 8 8 [0x03, 0x05, 0xD1, 0x01, 0x01, 0x55, 0x00, 0xFE] [] 0 8 0
     = Some (Inr (1, ustr ''URI'' @ nl @ nl))
   \<and> parse_ndef_record [0x03, 0x05, 0xD1, 0x01, 0x01, 0x55, 0x00, 0xFE] [] 2 1
     = Inr (7, ustr ''URI'' @ nl @ nl) \<and> (2 :: int) < 7
   \<and> tlv_body [0x03, 0x05, 0xD1, 0x01, 0x01, 0x55, 0x00, 0xFE] [] 0 0
     = Inr (Continue 7 1 (ustr ''URI'' @ nl @ nl)) \<and> (0 :: int) < 7"
proof -
  let ?d = "[0x03, 0x05, 0xD1, 0x01, 0x01, 0x55, 0x00, 0xFE] :: byte list"
  have r: "parse_ndef_record ?d [] 2 1 = Inr (7, ustr ''URI'' @ nl @ nl)"
    by (simp add: ndef_eval)
  have b: "tlv_body ?d [] 0 0 = Inr (Continue 7 1 (ustr ''URI'' @ nl @ nl))"
    by (simp add: ndef_eval)
  have t: "parse_ndef_tlv ?d [] 0 8 0 = Inr (1, ustr ''URI'' @ nl @ nl)"
    by (simp add: ndef_eval)
  have l: "length ?d = 8" by simp
  from parsing_terminates [of ?d]
  have "parse_ndef_tlv_bounded (length ?d) (length ?d) ?d [] 0 (int (length ?d)) 0
          = Some (parse_ndef_tlv ?d [] 0 (int (length ?d)) 0)"
    by (rule conjunct1)
  then have "parse_ndef_tlv_bounded 8 8 ?d [] 0 8 0 = Some (parse_ndef_tlv ?d [] 0 8 0)"
    unfolding l by simp
  with r b t show ?thesis by simp
qed

section \<open>Buffers that agree on a prefix\<close>

text \<open>
  Two buffers \<open>d1\<close> and \<open>d2\<close>, the second at least as long as the first, that agree on
  their first \<open>k\<close> bytes: whatever the decoder reads successfully from \<open>d1\<close> below \<open>k\<close> it
  reads from \<open>d2\<close> too.
\<close>

lemma get_prefix:
  assumes "length d1 \<le> length d2" and "take k d2 = take k d1"
    and "0 \<le> a" and "0 \<le> a + n" and "a + n \<le> int k"
    and "get d1 a n = Inr bs"
  shows "get d2 a n = Inr bs"
proof -
  define c where "c = nat (a + n) - nat a"
  from assms(3,4,6) have b: "a + n \<le> int (length d1)" and
    bs: "bs = take c (drop (nat a) d1)"
    by (simp_all add: get_nonneg c_def split: if_splits)
  from b assms(1) have "\<not> int (length d2) < a + n" by simp
  with assms(3,4) have g2: "get d2 a n = Inr (take c (drop (nat a) d2))"
    by (simp add: get_nonneg c_def)
  have "take c (drop (nat a) d2) = take c (drop (nat a) d1)"
  proof (cases "n \<le> 0")
    case True
    with assms(3,4) have "c = 0" unfolding c_def by linarith
    then show ?thesis by simp
  next
    case False
    with assms(3,5) have ck: "c + nat a \<le> k" unfolding c_def by linarith
    have tk: "take c (drop (nat a) d) = drop (nat a) (take (c + nat a) (take k d))"
      for d :: "byte list"
      using ck by (simp add: take_drop min_absorb1)
    show ?thesis by (simp only: tk assms(2))
  qed
  with g2 bs show ?thesis by simp
qed

lemma get_longer:
  "length d1 \<le> length d2 \<Longrightarrow> get d1 a n = Inr bs \<Longrightarrow> \<exists>bs'. get d2 a n = Inr bs'"
  by (simp add: get_def split: if_splits)

lemma get_byte_prefix:
  assumes "length d1 \<le> length d2" and "take k d2 = take k d1"
    and "0 \<le> a" and "a + 1 \<le> int k" and "get_byte d1 a = Inr v"
  shows "get_byte d2 a = Inr v"
proof -
  from assms(5) obtain bs where g: "get d1 a 1 = Inr bs" and v: "byte0 bs = Inr v"
    by (auto simp: get_byte_def ebind_eq_Inr)
  from assms(3) have "0 \<le> a + 1" by simp
  from get_prefix [OF assms(1,2,3) this assms(4) g] v show ?thesis
    by (simp add: get_byte_def)
qed

lemma agree_get:
  "agree k d1 d2 \<Longrightarrow> 0 \<le> a \<Longrightarrow> 0 \<le> a + n \<Longrightarrow> a + n \<le> int k
   \<Longrightarrow> get d1 a n = Inr bs \<Longrightarrow> get d2 a n = Inr bs"
  unfolding agree_def using get_prefix by blast

lemma agree_get_byte:
  "agree k d1 d2 \<Longrightarrow> 0 \<le> a \<Longrightarrow> a + 1 \<le> int k
   \<Longrightarrow> get_byte d1 a = Inr v \<Longrightarrow> get_byte d2 a = Inr v"
  unfolding agree_def using get_byte_prefix by blast

lemma agree_get_longer:
  "agree k d1 d2 \<Longrightarrow> get d1 a n = Inr bs \<Longrightarrow> \<exists>bs'. get d2 a n = Inr bs'"
  unfolding agree_def using get_longer by blast

lemma agree_dump:
  assumes "agree k d1 d2" and "0 \<le> pos" and "0 \<le> len" and "pos + len \<le> int k"
    and "dump d1 out prefix pos len fh = Inr out'"
  shows "dump d2 out prefix pos len fh = Inr out'"
proof -
  from assms(5) obtain bs where g: "get d1 pos len = Inr bs"
    by (auto simp: dump_def ebind_eq_Inr)
  from assms(2,3) have "0 \<le> pos + len" by simp
  from agree_get [OF assms(1,2) this assms(4) g] g assms(5) show ?thesis
    by (simp add: dump_def)
qed

lemma agree_parse_ndef_vcard:
  assumes "agree k d1 d2" and "0 \<le> pos" and "0 \<le> len" and "pos + len \<le> int k"
    and "parse_ndef_vcard d1 out pos len = Inr out'"
  shows "parse_ndef_vcard d2 out pos len = Inr out'"
proof -
  from assms(5) obtain bs where g: "get d1 pos len = Inr bs"
    by (auto simp: parse_ndef_vcard_def ebind_eq_Inr)
  from assms(2,3) have "0 \<le> pos + len" by simp
  from agree_get [OF assms(1,2) this assms(4) g] g assms(5) show ?thesis
    by (simp add: parse_ndef_vcard_def)
qed

lemma agree_parse_ndef_wifi:
  assumes "agree k d1 d2" and "0 \<le> pos" and "0 \<le> len" and "pos + len \<le> int k"
    and "parse_ndef_wifi d1 out pos len = Inr out'"
  shows "parse_ndef_wifi d2 out pos len = Inr out'"
proof -
  from assms(5) obtain bs where g: "get d1 pos len = Inr bs"
    by (auto simp: parse_ndef_wifi_def ebind_eq_Inr)
  from assms(2,3) have "0 \<le> pos + len" by simp
  from agree_get [OF assms(1,2) this assms(4) g] g assms(5) show ?thesis
    by (simp add: parse_ndef_wifi_def)
qed

lemma agree_parse_ndef_bt:
  assumes "agree k d1 d2" and "0 \<le> pos" and "0 \<le> len" and "pos + len \<le> int k"
    and "parse_ndef_bt d1 out pos len = Inr out'"
  shows "parse_ndef_bt d2 out pos len = Inr out'"
proof -
  from assms(5) obtain bs where g: "get d1 (pos + 2) (len - 2) = Inr bs"
    by (auto simp: parse_ndef_bt_def ebind_eq_Inr)
  from assms(2,3,4) have "0 \<le> pos + 2" "0 \<le> pos + 2 + (len - 2)" "pos + 2 + (len - 2) \<le> int k"
    by simp_all
  from agree_get [OF assms(1) this g] g assms(5) show ?thesis
    by (simp add: parse_ndef_bt_def)
qed

lemma agree_parse_ndef_uri:
  assumes "agree k d1 d2" and "0 \<le> pos" and "0 \<le> len" and "pos + len < int k"
    and "parse_ndef_uri d1 out pos len = Inr out'"
  shows "parse_ndef_uri d2 out pos len = Inr out'"
proof -
  from assms(5) obtain pt bs where b: "get_byte d1 pos = Inr pt"
    and g: "get d1 (pos + 1) (len - 1) = Inr bs"
    by (auto simp: parse_ndef_uri_def ebind_eq_Inr Let_def)
  from assms(3,4) have "pos + 1 \<le> int k" by simp
  note b2 = agree_get_byte [OF assms(1,2) this b]
  from assms(2,3,4) have "0 \<le> pos + 1" "0 \<le> pos + 1 + (len - 1)" "pos + 1 + (len - 1) \<le> int k"
    by simp_all
  from agree_get [OF assms(1) this g] b b2 g assms(5) show ?thesis
    by (simp add: parse_ndef_uri_def Let_def)
qed

lemma agree_parse_ndef_text:
  assumes "agree k d1 d2" and "0 \<le> pos" and "0 \<le> len" and "pos + len < int k"
    and "parse_ndef_text d1 out pos len = Inr out'"
  shows "parse_ndef_text d2 out pos len = Inr out'"
proof -
  from assms(5) obtain lang_len language bs where b: "get_byte d1 pos = Inr lang_len"
    and l: "get d1 (pos + 1) lang_len = Inr language"
    and g: "get d1 (pos + 1 + lang_len) (len - 1 - lang_len) = Inr bs"
    by (auto simp: parse_ndef_text_def ebind_eq_Inr Let_def)
  from assms(3,4) have "pos + 1 \<le> int k" by simp
  note b2 = agree_get_byte [OF assms(1,2) this b]
  from agree_get_longer [OF assms(1) l] obtain language' where
    l2: "get d2 (pos + 1) lang_len = Inr language'" by blast
  from get_byte_range [OF b] assms(2,3,4)
  have "0 \<le> pos + 1 + lang_len" "0 \<le> pos + 1 + lang_len + (len - 1 - lang_len)"
       "pos + 1 + lang_len + (len - 1 - lang_len) \<le> int k"
    by simp_all
  from agree_get [OF assms(1) this g] b b2 l l2 g assms(5) show ?thesis
    by (simp add: parse_ndef_text_def Let_def)
qed

lemma agree_dispatch:
  assumes "agree k d1 d2" and "0 \<le> pos" and "0 \<le> len" and "pos + len < int k"
    and "dispatch d1 out tnf type_field pos len = Inr out'"
  shows "dispatch d2 out tnf type_field pos len = Inr out'"
proof -
  from assms(4) have le: "pos + len \<le> int k" by simp
  note u = agree_parse_ndef_uri [OF assms(1-4)]
    and t = agree_parse_ndef_text [OF assms(1-4)]
    and b = agree_parse_ndef_bt [OF assms(1-3) le]
    and v = agree_parse_ndef_vcard [OF assms(1-3) le]
    and w = agree_parse_ndef_wifi [OF assms(1-3) le]
    and d = agree_dump [OF assms(1-3) le]
  from assms(5) show ?thesis
    unfolding dispatch_def
    by (auto split: if_splits intro: u t b v w d)
qed

lemma agree_read_payload_len:
  assumes "agree k d1 d2" and "0 \<le> pos" and "pos' \<le> int k"
    and "read_payload_len d1 sr pos = Inr (v, pos')"
  shows "read_payload_len d2 sr pos = Inr (v, pos')"
proof (cases "sr \<noteq> 0")
  case True
  with assms(4) have b: "get_byte d1 pos = Inr v" and p: "pos' = pos + 1"
    by (auto simp: read_payload_len_def ebind_eq_Inr)
  from assms(3) p have "pos + 1 \<le> int k" by simp
  from agree_get_byte [OF assms(1,2) this b] True p show ?thesis
    by (simp add: read_payload_len_def)
next
  case False
  with assms(4) obtain bs where g: "get d1 pos 4 = Inr bs" and v: "v = from_bytes_big bs"
    and p: "pos' = pos + 4"
    by (auto simp: read_payload_len_def ebind_eq_Inr)
  from assms(2,3) p have "0 \<le> pos + 4" "pos + 4 \<le> int k" by simp_all
  from agree_get [OF assms(1,2) this g] False v p show ?thesis
    by (simp add: read_payload_len_def)
qed

lemma agree_read_id_len:
  assumes "agree k d1 d2" and "0 \<le> pos" and "pos' \<le> int k"
    and "read_id_len d1 il pos = Inr (v, pos')"
  shows "read_id_len d2 il pos = Inr (v, pos')"
proof (cases "il \<noteq> 0")
  case True
  with assms(4) have b: "get_byte d1 pos = Inr v" and p: "pos' = pos + 1"
    by (auto simp: read_id_len_def ebind_eq_Inr)
  from assms(3) p have "pos + 1 \<le> int k" by simp
  from agree_get_byte [OF assms(1,2) this b] True p show ?thesis
    by (simp add: read_id_len_def)
next
  case False
  with assms(4) show ?thesis by (simp add: read_id_len_def)
qed

lemma agree_read_tlv_len:
  assumes "agree k d1 d2" and "0 \<le> pos" and "pos' \<le> int k"
    and "read_tlv_len d1 pos = Inr (v, pos')"
  shows "read_tlv_len d2 pos = Inr (v, pos')"
proof -
  from assms(4) obtain len_type where b: "get_byte d1 pos = Inr len_type"
    and r: "(if len_type < 0xFF then Inr (len_type, pos + 1)
             else ebind (get d1 (pos + 1) 2) (\<lambda>bs. Inr (from_bytes_big bs, pos + 1 + 2)))
            = Inr (v, pos')"
    by (auto simp: read_tlv_len_def ebind_eq_Inr Let_def)
  from r have "pos + 1 \<le> pos'" by (auto simp: ebind_eq_Inr split: if_splits)
  with assms(3) have "pos + 1 \<le> int k" by simp
  note b2 = agree_get_byte [OF assms(1,2) this b]
  show ?thesis
  proof (cases "len_type < 0xFF")
    case True
    with r b2 show ?thesis by (simp add: read_tlv_len_def Let_def)
  next
    case False
    with r obtain bs where g: "get d1 (pos + 1) 2 = Inr bs" and v: "v = from_bytes_big bs"
      and p: "pos' = pos + 1 + 2"
      by (auto simp: ebind_eq_Inr)
    from assms(2,3) p have "0 \<le> pos + 1" "0 \<le> pos + 1 + 2" "pos + 1 + 2 \<le> int k" by simp_all
    from agree_get [OF assms(1) this g] False b2 v p show ?thesis
      by (simp add: read_tlv_len_def Let_def)
  qed
qed

lemma agree_parse_ndef_record:
  assumes "agree k d1 d2" and "0 \<le> pos" and "pos' < int k"
    and "parse_ndef_record d1 out pos mn = Inr (pos', out')"
  shows "parse_ndef_record d2 out pos mn = Inr (pos', out')"
proof -
  from assms(4) obtain flags type_len payload_len pos3 id_len pos4 type_field where
    f: "get_byte d1 pos = Inr flags" and cf: "drop_bit 5 flags AND 1 = 0" and
    tl: "get_byte d1 (pos + 1) = Inr type_len" and
    pl: "read_payload_len d1 (drop_bit 4 flags AND 1) (pos + 2) = Inr (payload_len, pos3)" and
    il: "read_id_len d1 (drop_bit 3 flags AND 1) pos3 = Inr (id_len, pos4)" and
    tf: "get d1 pos4 type_len = Inr type_field" and
    di: "dispatch d1 out (flags AND 7) type_field (pos4 + type_len + id_len) payload_len = Inr out'" and
    p': "pos' = pos4 + type_len + id_len + payload_len"
    unfolding parse_ndef_record_Inr by blast
  from get_byte_range [OF tl] have t0: "0 \<le> type_len" by simp
  from read_payload_len_progress [OF pl] have p3: "0 \<le> payload_len" "pos + 2 < pos3" by simp_all
  from read_id_len_progress [OF il] have p4: "0 \<le> id_len" "pos3 \<le> pos4" by simp_all
  from assms(2,3) t0 p3 p4 p' have
    b: "pos + 1 \<le> int k" "0 \<le> pos + 1" "pos + 1 + 1 \<le> int k" "0 \<le> pos + 2" "pos3 \<le> int k"
       "0 \<le> pos3" "pos4 \<le> int k" "0 \<le> pos4" "0 \<le> pos4 + type_len" "pos4 + type_len \<le> int k"
       "0 \<le> pos4 + type_len + id_len" "pos4 + type_len + id_len + payload_len < int k"
    by simp_all
  note f2 = agree_get_byte [OF assms(1,2) b(1) f]
    and tl2 = agree_get_byte [OF assms(1) b(2,3) tl]
    and pl2 = agree_read_payload_len [OF assms(1) b(4,5) pl]
    and il2 = agree_read_id_len [OF assms(1) b(6,7) il]
    and tf2 = agree_get [OF assms(1) b(8,9,10) tf]
    and di2 = agree_dispatch [OF assms(1) b(11) p3(1) b(12) di]
  show ?thesis
    unfolding parse_ndef_record_Inr using f2 cf tl2 pl2 il2 tf2 di2 p' by blast
qed

lemma agree_parse_ndef_message_loop:
  "agree k d1 d2 \<Longrightarrow> 0 \<le> pos \<Longrightarrow> pos' < int k
   \<Longrightarrow> parse_ndef_message_loop d1 out pos endp mn = Inr (pos', out')
   \<Longrightarrow> parse_ndef_message_loop d2 out pos endp mn = Inr (pos', out')"
proof (induction d1 out pos endp mn rule: parse_ndef_message_loop.induct)
  case (1 d1 out pos endp mn)
  show ?case
  proof (cases "pos < endp")
    case False
    with "1.prems" show ?thesis by (simp add: parse_ndef_message_loop_done)
  next
    case True
    with "1.prems"(4) obtain p1 o1 where
      r: "parse_ndef_record d1 out pos mn = Inr (p1, o1)" and
      l: "parse_ndef_message_loop d1 o1 p1 endp mn = Inr (pos', out')"
      by (auto simp: parse_ndef_message_loop_step split: sum.splits)
    from parse_ndef_message_loop_mono [OF l] "1.prems"(3) have "p1 < int k" by simp
    note r2 = agree_parse_ndef_record [OF "1.prems"(1,2) this r]
    from parse_ndef_record_progress [OF r] "1.prems"(2) have "0 \<le> p1" by simp
    from "1.IH" [OF True r refl "1.prems"(1) this "1.prems"(3) l] r2 True show ?thesis
      by (simp add: parse_ndef_message_loop_step)
  qed
qed

lemma tlv_body_padding:
  "get_byte data pos = Inr NdefTlvPadding \<Longrightarrow>
   tlv_body data out pos mc = Inr (Continue (pos + 1) mc out)"
  by (simp add: tlv_body_def Let_def)

lemma tlv_body_terminator:
  "get_byte data pos = Inr NdefTlvTerminator \<Longrightarrow>
   tlv_body data out pos mc = Inr (Return mc out)"
  by (simp add: tlv_body_def Let_def NdefTlvTerminator_def NdefTlvPadding_def)

lemma tlv_body_other:
  assumes "get_byte data pos = Inr t" and "t \<noteq> NdefTlvPadding" and "t \<noteq> NdefTlvTerminator"
    and "t \<noteq> NdefTlvNdefMessage"
  shows "tlv_body data out pos mc =
           (if t = NdefTlvLockControl \<or> t = NdefTlvMemoryControl \<or> t = NdefTlvProprietary
            then ebind (read_tlv_len data (pos + 1))
                   (\<lambda>(tlv_len, pos2). Inr (Continue (pos2 + tlv_len) mc out))
            else Inr (Return 0 out))"
  using assms by (simp add: tlv_body_def Let_def)

lemma agree_tlv_body:
  assumes "agree k d1 d2" and "0 \<le> pos" and "pos' < int k"
    and "tlv_body d1 out pos mc = Inr (Continue pos' mc' out')"
  shows "tlv_body d2 out pos mc = Inr (Continue pos' mc' out')"
proof -
  from assms(4) obtain t where t: "get_byte d1 pos = Inr t"
    by (auto simp: tlv_body_def ebind_eq_Inr)
  from tlv_body_progress [OF assms(4)] assms(3) have "pos + 1 \<le> int k" by simp
  note t2 = agree_get_byte [OF assms(1,2) this t]
  from assms(2) have p1: "0 \<le> pos + 1" by simp
  consider (pad) "t = NdefTlvPadding" | (fin) "t = NdefTlvTerminator"
    | (msg) "t = NdefTlvNdefMessage"
    | (other) "t \<noteq> NdefTlvPadding" "t \<noteq> NdefTlvTerminator" "t \<noteq> NdefTlvNdefMessage"
    by blast
  then show ?thesis
  proof cases
    case pad
    from t t2 assms(4) show ?thesis
      unfolding pad by (simp add: tlv_body_padding)
  next
    case fin
    from t assms(4) show ?thesis
      unfolding fin by (simp add: tlv_body_terminator)
  next
    case other
    note b1 = tlv_body_other [OF t other, of out mc] and b2 = tlv_body_other [OF t2 other, of out mc]
    from assms(4) have "(if t = NdefTlvLockControl \<or> t = NdefTlvMemoryControl \<or> t = NdefTlvProprietary
            then ebind (read_tlv_len d1 (pos + 1))
                   (\<lambda>(tlv_len, pos2). Inr (Continue (pos2 + tlv_len) mc out))
            else Inr (Return 0 out)) = Inr (Continue pos' mc' out')"
      unfolding b1 .
    then obtain tlv_len pos2 where
      l: "read_tlv_len d1 (pos + 1) = Inr (tlv_len, pos2)" and
      c: "pos' = pos2 + tlv_len" "mc' = mc" "out' = out" and
      ty: "t = NdefTlvLockControl \<or> t = NdefTlvMemoryControl \<or> t = NdefTlvProprietary"
      by (auto simp: ebind_eq_Inr split: if_splits)
    from read_tlv_len_progress [OF l] c(1) assms(3) have "pos2 \<le> int k" by simp
    from agree_read_tlv_len [OF assms(1) p1 this l] ty c show ?thesis unfolding b2 by simp
  next
    case msg
    from t have tm: "get_byte d1 pos = Inr NdefTlvNdefMessage" unfolding msg .
    from t2 have tm2: "get_byte d2 pos = Inr NdefTlvNdefMessage" unfolding msg .
    show ?thesis
    proof (cases "read_tlv_len d1 (pos + 1)")
      case (Inl e)
      with tm assms(4) show ?thesis
        by (simp add: tlv_body_def Let_def NdefTlvNdefMessage_def NdefTlvPadding_def
              NdefTlvTerminator_def)
    next
      case (Inr r)
      then obtain tlv_len pos2 where l: "read_tlv_len d1 (pos + 1) = Inr (tlv_len, pos2)"
        by (cases r) simp
      from assms(4) have "ebind (parse_ndef_message_loop d1 out pos2 (pos2 + tlv_len) (mc + 1))
             (\<lambda>(pos3, out'). Inr (Continue pos3 (mc + 1) out')) = Inr (Continue pos' mc' out')"
        unfolding tlv_body_message [OF tm l] .
      then obtain x where
        m0: "parse_ndef_message_loop d1 out pos2 (pos2 + tlv_len) (mc + 1) = Inr x" and
        c0: "(case x of (pos3, out') \<Rightarrow> Inr (Continue pos3 (mc + 1) out'))
               = (Inr (Continue pos' mc' out') :: error + tlv_step)"
        unfolding ebind_eq_Inr by blast
      from c0 have x: "x = (pos', out')" and eq: "mc' = mc + 1"
        by (cases x, simp)+
      from m0 x have
        m: "parse_ndef_message_loop d1 out pos2 (pos2 + tlv_len) (mc + 1) = Inr (pos', out')"
        by simp
      from read_tlv_len_progress [OF l] assms(2) have p2: "0 \<le> pos2" by simp
      from parse_ndef_message_loop_mono [OF m] assms(3) have "pos2 \<le> int k" by simp
      note l2 = agree_read_tlv_len [OF assms(1) p1 this l]
      note m2 = agree_parse_ndef_message_loop [OF assms(1) p2 assms(3) m]
      show ?thesis unfolding tlv_body_message [OF tm2 l2] using m2 eq by simp
    qed
  qed
qed

lemma agree_scanner_at:
  "scanner_at d1 pos mc out \<Longrightarrow> agree k d1 d2 \<Longrightarrow> pos < int k \<Longrightarrow> scanner_at d2 pos mc out"
proof (induction rule: scanner_at.induct)
  case scanner_start
  show ?case by (rule scanner_at.scanner_start)
next
  case (scanner_next pos mc out pos' mc' out')
  from tlv_body_progress [OF scanner_next.hyps(3)] scanner_next.prems(2)
  have "pos < int k" by simp
  note s = scanner_next.IH [OF scanner_next.prems(1) this]
  from scanner_next.hyps(2) scanner_next.prems(1) have lt: "pos < int (length d2)"
    by (simp add: agree_def)
  from scanner_at_nonneg [OF scanner_next.hyps(1)] have "0 \<le> pos" .
  from agree_tlv_body [OF scanner_next.prems(1) this scanner_next.prems(2) scanner_next.hyps(3)]
  have "tlv_body d2 out pos mc = Inr (Continue pos' mc' out')" .
  with s lt show ?case by (rule scanner_at.scanner_next)
qed

section \<open>The terminator\<close>

lemma scanner_at_terminator:
  assumes "scanner_at data pos mc out" and "pos < int (length data)"
    and "get_byte data pos = Inr NdefTlvTerminator"
  shows "parse_ndef_tlv data [] 0 (int (length data)) 0 = Inr (mc, out)"
proof -
  from tlv_body_terminator [OF assms(3)] assms(2) have "parse_ndef_tlv_loop data out pos (int (length data)) mc = Inr (mc, out)"
    by (simp add: parse_ndef_tlv_loop_step)
  with scanner_at_result [OF assms(1)] show ?thesis by simp
qed

text \<open>
  C8, as stated, fails. In \<open>03 05 D1 01 01 54 02 FE 00\<close> the scanner reads the terminator
  at index 7 and the result is \<open>Text\<close>; the Text record before it declares a language
  tag of two bytes, which the decoder reads from indices 7 and 8. Without the byte at
  index 8, which lies after the terminator, the result is the out-of-bounds error.
\<close>

theorem byte_after_terminator_matters:
  "scanner_at [0x03, 0x05, 0xD1, 0x01, 0x01, 0x54, 0x02, 0xFE, 0x00] 7 1 (ustr ''Text'' @ nl @ nl)
   \<and> get_byte [0x03, 0x05, 0xD1, 0x01, 0x01, 0x54, 0x02, 0xFE, 0x00] 7 = Inr NdefTlvTerminator
   \<and> take 8 [0x03, 0x05, 0xD1, 0x01, 0x01, 0x54, 0x02, 0xFE, 0x00 :: byte]
       = [0x03, 0x05, 0xD1, 0x01, 0x01, 0x54, 0x02, 0xFE]
   \<and> parse_ndef [0x03, 0x05, 0xD1, 0x01, 0x01, 0x54, 0x02, 0xFE, 0x00] = ustr ''Text''
   \<and> parse_ndef [0x03, 0x05, 0xD1, 0x01, 0x01, 0x54, 0x02, 0xFE]
       = ustr ''Error during parsing: Out-of-bounds access in NDEF data''
   \<and> parse_ndef [0x03, 0x05, 0xD1, 0x01, 0x01, 0x54, 0x02, 0xFE, 0x00]
       \<noteq> parse_ndef [0x03, 0x05, 0xD1, 0x01, 0x01, 0x54, 0x02, 0xFE]"
proof -
  let ?d = "[0x03, 0x05, 0xD1, 0x01, 0x01, 0x54, 0x02, 0xFE, 0x00] :: byte list"
  have "scanner_at ?d 7 1 (ustr ''Text'' @ nl @ nl)"
    by (rule scanner_next [OF scanner_start]) (simp_all add: ndef_eval)
  then show ?thesis by (simp add: ndef_eval)
qed

text \<open>
  C8, amended. When, during \<open>parse_ndef d1\<close>, the scanner reads a terminator at index
  \<open>pos\<close>, it stops and returns the message count accumulated so far, and the values of
  the bytes after \<open>pos\<close> influence neither the output text nor the count: every
  buffer \<open>d2\<close> that is at least as long as \<open>d1\<close> and agrees with it up to and including index
  \<open>pos\<close> gives the same count, output and result.
\<close>

theorem terminator_stops_scan:
  assumes "scanner_at d1 pos mc out" and "pos < int (length d1)"
    and "get_byte d1 pos = Inr NdefTlvTerminator"
    and "length d1 \<le> length d2" and "take (nat pos + 1) d2 = take (nat pos + 1) d1"
  shows "parse_ndef_tlv d1 [] 0 (int (length d1)) 0 = Inr (mc, out)
       \<and> parse_ndef_tlv d2 [] 0 (int (length d2)) 0 = Inr (mc, out)
       \<and> parse_ndef d2 = parse_ndef d1"
proof -
  from assms(4,5) have a: "agree (nat pos + 1) d1 d2" by (simp add: agree_def)
  from scanner_at_nonneg [OF assms(1)] have p: "0 \<le> pos" "pos < int (nat pos + 1)"
    "pos + 1 \<le> int (nat pos + 1)" by simp_all
  note s2 = agree_scanner_at [OF assms(1) a p(2)]
  note t2 = agree_get_byte [OF a p(1,3) assms(3)]
  from assms(2,4) have "pos < int (length d2)" by simp
  from scanner_at_terminator [OF assms(1,2,3)] scanner_at_terminator [OF s2 this t2]
  show ?thesis by (simp add: parse_ndef_def)
qed

theorem terminator_stops_scan_witness:
  "scanner_at [0x03, 0x05, 0xD1, 0x01, 0x01, 0x54, 0x02, 0xFE, 0x00] 7 1 (ustr ''Text'' @ nl @ nl)
   \<and> get_byte [0x03, 0x05, 0xD1, 0x01, 0x01, 0x54, 0x02, 0xFE, 0x00] 7 = Inr NdefTlvTerminator
   \<and> parse_ndef_tlv [0x03, 0x05, 0xD1, 0x01, 0x01, 0x54, 0x02, 0xFE, 0x03, 0x01, 0xB1] [] 0 11 0
       = Inr (1, ustr ''Text'' @ nl @ nl)
   \<and> parse_ndef [0x03, 0x05, 0xD1, 0x01, 0x01, 0x54, 0x02, 0xFE, 0x03, 0x01, 0xB1]
       = parse_ndef [0x03, 0x05, 0xD1, 0x01, 0x01, 0x54, 0x02, 0xFE, 0x00]"
proof -
  let ?d1 = "[0x03, 0x05, 0xD1, 0x01, 0x01, 0x54, 0x02, 0xFE, 0x00] :: byte list"
  let ?d2 = "[0x03, 0x05, 0xD1, 0x01, 0x01, 0x54, 0x02, 0xFE, 0x03, 0x01, 0xB1] :: byte list"
  have s: "scanner_at ?d1 7 1 (ustr ''Text'' @ nl @ nl)"
    by (rule scanner_next [OF scanner_start]) (simp_all add: ndef_eval)
  have t: "get_byte ?d1 7 = Inr NdefTlvTerminator" by (simp add: ndef_eval)
  have l: "7 < int (length ?d1)" "length ?d1 \<le> length ?d2" by simp_all
  have k: "take (nat 7 + 1) ?d2 = take (nat 7 + 1) ?d1" by (simp add: numeral_eq_Suc)
  from terminator_stops_scan [OF s l(1) t l(2) k] s t show ?thesis by simp
qed

section \<open>Bytes in front of the cursor\<close>

text \<open>Prepending bytes to the buffer moves every position of the parse and nothing else.\<close>

lemma shift_pos_simps [simp]:
  "shift_pos k (Inl e) = Inl e" "shift_pos k (Inr (p, x)) = Inr (k + p, x)"
  by (simp_all add: shift_pos_def)

lemma shift_snd_simps [simp]:
  "shift_snd k (Inl e) = Inl e" "shift_snd k (Inr (x, p)) = Inr (x, k + p)"
  by (simp_all add: shift_snd_def)

lemma shift_step_simps [simp]:
  "shift_step k (Inl e) = Inl e"
  "shift_step k (Inr (Continue p mc out)) = Inr (Continue (k + p) mc out)"
  "shift_step k (Inr (Return v out)) = Inr (Return v out)"
  by (simp_all add: shift_step_def)

lemma get_drop:
  assumes "0 \<le> q" and "0 \<le> q + n"
  shows "get (a @ r) (int (length a) + q) n = get r q n"
proof -
  from assms have n1: "nat (int (length a) + q) = length a + nat q"
    and n2: "nat (int (length a) + q + n) = length a + nat (q + n)"
    by (simp_all add: nat_add_distrib add.assoc)
  from assms have "0 \<le> int (length a) + q" "0 \<le> int (length a) + q + n" by simp_all
  then have "get (a @ r) (int (length a) + q) n =
      (if int (length (a @ r)) < int (length a) + q + n then Inl OutOfBounds
       else Inr (take (nat (int (length a) + q + n) - nat (int (length a) + q))
                  (drop (nat (int (length a) + q)) (a @ r))))"
    by (rule get_nonneg)
  also have "\<dots> = (if int (length r) < q + n then Inl OutOfBounds
       else Inr (take (nat (q + n) - nat q) (drop (nat q) r)))"
    unfolding n1 n2 by simp
  also from assms have "\<dots> = get r q n" by (simp add: get_nonneg)
  finally show ?thesis .
qed

lemma get_byte_drop: "0 \<le> q \<Longrightarrow> get_byte (a @ r) (int (length a) + q) = get_byte r q"
  by (simp add: get_byte_def get_drop)

lemma read_payload_len_drop:
  "0 \<le> q \<Longrightarrow>
   read_payload_len (a @ r) sr (int (length a) + q)
     = shift_snd (int (length a)) (read_payload_len r sr q)"
  by (cases "get_byte r q"; cases "get r q 4")
     (simp_all add: read_payload_len_def get_byte_drop get_drop add.assoc)

lemma read_id_len_drop:
  "0 \<le> q \<Longrightarrow>
   read_id_len (a @ r) il (int (length a) + q) = shift_snd (int (length a)) (read_id_len r il q)"
  by (cases "get_byte r q") (simp_all add: read_id_len_def get_byte_drop add.assoc)

lemma read_tlv_len_drop:
  assumes "0 \<le> q"
  shows "read_tlv_len (a @ r) (int (length a) + q) = shift_snd (int (length a)) (read_tlv_len r q)"
proof -
  from assms have g: "get (a @ r) (int (length a) + (q + 1)) 2 = get r (q + 1) 2"
    by (simp add: get_drop)
  from assms show ?thesis
    by (cases "get_byte r q"; cases "get r (q + 1) 2")
       (simp_all add: read_tlv_len_def get_byte_drop g add.assoc Let_def)
qed

lemma dump_drop:
  "0 \<le> q \<Longrightarrow> 0 \<le> len \<Longrightarrow>
   dump (a @ r) out prefix (int (length a) + q) len fh = dump r out prefix q len fh"
  by (simp add: dump_def get_drop)

lemma parse_ndef_vcard_drop:
  "0 \<le> q \<Longrightarrow> 0 \<le> len \<Longrightarrow>
   parse_ndef_vcard (a @ r) out (int (length a) + q) len = parse_ndef_vcard r out q len"
  by (simp add: parse_ndef_vcard_def get_drop)

lemma parse_ndef_wifi_drop:
  "0 \<le> q \<Longrightarrow> 0 \<le> len \<Longrightarrow>
   parse_ndef_wifi (a @ r) out (int (length a) + q) len = parse_ndef_wifi r out q len"
  by (simp add: parse_ndef_wifi_def get_drop)

lemma parse_ndef_bt_drop:
  assumes "0 \<le> q" and "0 \<le> len"
  shows "parse_ndef_bt (a @ r) out (int (length a) + q) len = parse_ndef_bt r out q len"
proof -
  from assms have "get (a @ r) (int (length a) + (q + 2)) (len - 2) = get r (q + 2) (len - 2)"
    by (simp add: get_drop)
  then show ?thesis by (simp add: parse_ndef_bt_def add.assoc)
qed

lemma parse_ndef_uri_drop:
  assumes "0 \<le> q" and "0 \<le> len"
  shows "parse_ndef_uri (a @ r) out (int (length a) + q) len = parse_ndef_uri r out q len"
proof -
  from assms have "get (a @ r) (int (length a) + (q + 1)) (len - 1) = get r (q + 1) (len - 1)"
    by (simp add: get_drop)
  with assms(1) show ?thesis
    by (simp add: parse_ndef_uri_def get_byte_drop add.assoc Let_def)
qed

lemma parse_ndef_text_drop:
  assumes "0 \<le> q" and "0 \<le> len"
  shows "parse_ndef_text (a @ r) out (int (length a) + q) len = parse_ndef_text r out q len"
proof (cases "get_byte r q")
  case (Inl e)
  with assms(1) show ?thesis by (simp add: parse_ndef_text_def get_byte_drop)
next
  case (Inr lang_len)
  from get_byte_range [OF Inr] have l0: "0 \<le> lang_len" by simp
  with assms have
    "get (a @ r) (int (length a) + (q + 1)) lang_len = get r (q + 1) lang_len"
    "get (a @ r) (int (length a) + (q + 1 + lang_len)) (len - 1 - lang_len)
       = get r (q + 1 + lang_len) (len - 1 - lang_len)"
    by (simp_all add: get_drop)
  with assms(1) Inr show ?thesis
    by (simp add: parse_ndef_text_def get_byte_drop add.assoc Let_def)
qed

lemma dispatch_drop:
  "0 \<le> q \<Longrightarrow> 0 \<le> len \<Longrightarrow>
   dispatch (a @ r) out tnf type_field (int (length a) + q) len
     = dispatch r out tnf type_field q len"
  by (simp add: dispatch_def dump_drop parse_ndef_uri_drop parse_ndef_text_drop
        parse_ndef_bt_drop parse_ndef_vcard_drop parse_ndef_wifi_drop)

lemma parse_ndef_record_tail:
  "parse_ndef_record data out pos mn =
     ebind (get_byte data pos) (\<lambda>flags.
       if drop_bit 5 flags AND 1 \<noteq> 0 then Inl ChunkedRecord
       else ebind (get_byte data (pos + 1)) (\<lambda>type_len.
              ebind (read_payload_len data (drop_bit 4 flags AND 1) (pos + 2))
                (\<lambda>(payload_len, pos3).
                   record_tail data out (drop_bit 3 flags AND 1) (flags AND 7)
                     type_len payload_len pos3)))"
  by (simp add: parse_ndef_record_def record_tail_def Let_def add.assoc cong: if_cong)

lemma record_tail_drop:
  assumes "0 \<le> q" and "0 \<le> type_len" and "0 \<le> payload_len"
  shows "record_tail (a @ r) out il tnf type_len payload_len (int (length a) + q)
           = shift_pos (int (length a)) (record_tail r out il tnf type_len payload_len q)"
proof (cases "read_id_len r il q")
  case (Inl e)
  with assms(1) show ?thesis by (simp add: record_tail_def read_id_len_drop)
next
  case (Inr x)
  then obtain id_len pos4 where il: "read_id_len r il q = Inr (id_len, pos4)"
    by (cases x) simp
  from read_id_len_progress [OF il] assms(1) have p4: "0 \<le> id_len" "0 \<le> pos4" by simp_all
  with assms(2) have g: "get (a @ r) (int (length a) + pos4) type_len = get r pos4 type_len"
    by (simp add: get_drop)
  show ?thesis
  proof (cases "get r pos4 type_len")
    case (Inl e)
    with assms(1) il g show ?thesis by (simp add: record_tail_def read_id_len_drop)
  next
    case tf: (Inr type_field)
    from p4 assms(2,3) have
      "dispatch (a @ r) out tnf type_field (int (length a) + (pos4 + type_len + id_len)) payload_len
         = dispatch r out tnf type_field (pos4 + type_len + id_len) payload_len"
      by (simp add: dispatch_drop)
    with assms(1) il g tf show ?thesis
      by (cases "dispatch r out tnf type_field (pos4 + type_len + id_len) payload_len")
         (simp_all add: record_tail_def read_id_len_drop add.assoc)
  qed
qed

lemma parse_ndef_record_drop:
  assumes "0 \<le> q"
  shows "parse_ndef_record (a @ r) out (int (length a) + q) mn
           = shift_pos (int (length a)) (parse_ndef_record r out q mn)"
proof (cases "get_byte r q")
  case (Inl e)
  with assms show ?thesis by (simp add: parse_ndef_record_tail get_byte_drop)
next
  case f: (Inr flags)
  show ?thesis
  proof (cases "drop_bit 5 flags AND 1 \<noteq> 0")
    case True
    with assms f show ?thesis by (simp add: parse_ndef_record_tail get_byte_drop)
  next
    case cf: False
    from assms have t: "get_byte (a @ r) (int (length a) + (q + 1)) = get_byte r (q + 1)"
      by (simp add: get_byte_drop)
    show ?thesis
    proof (cases "get_byte r (q + 1)")
      case (Inl e)
      with assms f cf t show ?thesis
        by (simp add: parse_ndef_record_tail get_byte_drop add.assoc)
    next
      case tl: (Inr type_len)
      from get_byte_range [OF tl] have t0: "0 \<le> type_len" by simp
      from assms have pl: "read_payload_len (a @ r) (drop_bit 4 flags AND 1) (int (length a) + (q + 2))
           = shift_snd (int (length a)) (read_payload_len r (drop_bit 4 flags AND 1) (q + 2))"
        by (simp add: read_payload_len_drop)
      show ?thesis
      proof (cases "read_payload_len r (drop_bit 4 flags AND 1) (q + 2)")
        case (Inl e)
        with assms f cf t tl pl show ?thesis
          by (simp add: parse_ndef_record_tail get_byte_drop add.assoc)
      next
        case (Inr x)
        then obtain payload_len pos3 where
          p: "read_payload_len r (drop_bit 4 flags AND 1) (q + 2) = Inr (payload_len, pos3)"
          by (cases x) simp
        from read_payload_len_progress [OF p] assms have "0 \<le> pos3" "0 \<le> payload_len"
          by simp_all
        from record_tail_drop [OF this(1) t0 this(2)] assms f cf t tl pl p show ?thesis
          by (simp add: parse_ndef_record_tail get_byte_drop add.assoc)
      qed
    qed
  qed
qed

lemma parse_ndef_message_loop_drop:
  "0 \<le> q \<Longrightarrow>
   parse_ndef_message_loop (a @ r) out (int (length a) + q) (int (length a) + endq) mn
     = shift_pos (int (length a)) (parse_ndef_message_loop r out q endq mn)"
proof (induction r out q endq mn rule: parse_ndef_message_loop.induct)
  case (1 r out q endq mn)
  show ?case
  proof (cases "q < endq")
    case False
    then show ?thesis by (simp add: parse_ndef_message_loop_done)
  next
    case True
    note rd = parse_ndef_record_drop [OF "1.prems", of a r out mn]
    show ?thesis
    proof (cases "parse_ndef_record r out q mn")
      case (Inl e)
      with True rd show ?thesis by (simp add: parse_ndef_message_loop_step)
    next
      case (Inr x)
      then obtain p1 o1 where x: "parse_ndef_record r out q mn = Inr (p1, o1)"
        by (cases x) simp
      from parse_ndef_record_progress [OF x] "1.prems" have "0 \<le> p1" by simp
      from "1.IH" [OF True x refl this] True rd x show ?thesis
        by (simp add: parse_ndef_message_loop_step)
    qed
  qed
qed

lemma tlv_body_drop:
  assumes "0 \<le> q"
  shows "tlv_body (a @ r) out (int (length a) + q) mc
           = shift_step (int (length a)) (tlv_body r out q mc)"
proof (cases "get_byte r q")
  case (Inl e)
  with assms show ?thesis by (simp add: tlv_body_def get_byte_drop)
next
  case (Inr t)
  with assms have t2: "get_byte (a @ r) (int (length a) + q) = Inr t"
    by (simp add: get_byte_drop)
  from assms have l: "read_tlv_len (a @ r) (int (length a) + q + 1)
      = shift_snd (int (length a)) (read_tlv_len r (q + 1))"
    using read_tlv_len_drop [of "q + 1" a r] by (simp add: add.assoc)
  consider (pad) "t = NdefTlvPadding" | (fin) "t = NdefTlvTerminator"
    | (msg) "t = NdefTlvNdefMessage"
    | (other) "t \<noteq> NdefTlvPadding" "t \<noteq> NdefTlvTerminator" "t \<noteq> NdefTlvNdefMessage"
    by blast
  then show ?thesis
  proof cases
    case pad
    from Inr t2 show ?thesis unfolding pad by (simp add: tlv_body_padding add.assoc)
  next
    case fin
    from Inr t2 show ?thesis unfolding fin by (simp add: tlv_body_terminator)
  next
    case other
    show ?thesis
      unfolding tlv_body_other [OF Inr other] tlv_body_other [OF t2 other] l
      by (cases "read_tlv_len r (q + 1)") (auto simp: add.assoc)
  next
    case msg
    from Inr have tm: "get_byte r q = Inr NdefTlvNdefMessage" unfolding msg .
    from t2 have tm2: "get_byte (a @ r) (int (length a) + q) = Inr NdefTlvNdefMessage"
      unfolding msg .
    show ?thesis
    proof (cases "read_tlv_len r (q + 1)")
      case (Inl e)
      with tm tm2 l show ?thesis
        by (simp add: tlv_body_def Let_def NdefTlvNdefMessage_def NdefTlvPadding_def
              NdefTlvTerminator_def)
    next
      case (Inr x)
      then obtain tlv_len p2 where x: "read_tlv_len r (q + 1) = Inr (tlv_len, p2)"
        by (cases x) simp
      with l have x2: "read_tlv_len (a @ r) (int (length a) + q + 1)
          = Inr (tlv_len, int (length a) + p2)" by simp
      from read_tlv_len_progress [OF x] assms have "0 \<le> p2" by simp
      from parse_ndef_message_loop_drop [OF this, of a r out "p2 + tlv_len" "mc + 1"]
      have m: "parse_ndef_message_loop (a @ r) out (int (length a) + p2)
                 (int (length a) + p2 + tlv_len) (mc + 1)
               = shift_pos (int (length a))
                   (parse_ndef_message_loop r out p2 (p2 + tlv_len) (mc + 1))"
        by (simp add: add.assoc)
      show ?thesis
        unfolding tlv_body_message [OF tm x] tlv_body_message [OF tm2 x2] m
        by (cases "parse_ndef_message_loop r out p2 (p2 + tlv_len) (mc + 1)") auto
    qed
  qed
qed

lemma parse_ndef_tlv_loop_drop:
  "0 \<le> q \<Longrightarrow>
   parse_ndef_tlv_loop (a @ r) out (int (length a) + q) (int (length a) + endq) mc
     = parse_ndef_tlv_loop r out q endq mc"
proof (induction r out q endq mc rule: parse_ndef_tlv_loop.induct)
  case (1 r out q endq mc)
  show ?case
  proof (cases "q < endq")
    case False
    then show ?thesis by (simp add: parse_ndef_tlv_loop_done)
  next
    case True
    note bd = tlv_body_drop [OF "1.prems", of a r out mc]
    show ?thesis
    proof (cases "tlv_body r out q mc")
      case (Inl e)
      with True bd show ?thesis by (simp add: parse_ndef_tlv_loop_step)
    next
      case (Inr st)
      show ?thesis
      proof (cases st)
        case (Return v o1)
        with Inr True bd show ?thesis by (simp add: parse_ndef_tlv_loop_step)
      next
        case (Continue p1 m1 o1)
        with Inr have c: "tlv_body r out q mc = Inr (Continue p1 m1 o1)" by simp
        from tlv_body_progress [OF c] "1.prems" have "0 \<le> p1" by simp
        from "1.IH" [OF True Inr Continue this] True bd c show ?thesis
          by (simp add: parse_ndef_tlv_loop_step)
      qed
    qed
  qed
qed

section \<open>Short and long length encodings\<close>

text \<open>
  A TLV whose type byte the scanner reads at the end of \<open>pre\<close>, with a length field that
  fills the rest of \<open>hdr\<close> and encodes \<open>tlv_len\<close>: the result of the whole parse is
  determined by the type, \<open>tlv_len\<close>, the scanner's state and the bytes \<open>rest\<close> after the
  length field.
\<close>

lemma parse_from_tlv_header:
  assumes s: "scanner_at (pre @ hdr @ rest) (int (length pre)) mc out"
    and t: "get_byte (pre @ hdr @ rest) (int (length pre)) = Inr t"
    and ty: "t = NdefTlvLockControl \<or> t = NdefTlvMemoryControl \<or> t = NdefTlvProprietary
              \<or> t = NdefTlvNdefMessage"
    and l: "read_tlv_len (pre @ hdr @ rest) (int (length pre) + 1)
              = Inr (tlv_len, int (length pre) + int (length hdr))"
  shows "parse_ndef_tlv (pre @ hdr @ rest) [] 0 (int (length (pre @ hdr @ rest))) 0 =
           (if t \<noteq> NdefTlvNdefMessage
            then parse_ndef_tlv_loop rest out tlv_len (int (length rest)) mc
            else (case parse_ndef_message_loop rest out 0 tlv_len (mc + 1) of
                    Inl e \<Rightarrow> Inl e
                  | Inr (p, out1) \<Rightarrow> parse_ndef_tlv_loop rest out1 p (int (length rest)) (mc + 1)))"
proof -
  let ?d = "pre @ hdr @ rest"
  let ?a = "pre @ hdr"
  have d: "?d = ?a @ rest" by simp
  have la: "int (length ?a) = int (length pre) + int (length hdr)" by simp
  have ld: "int (length ?d) = int (length ?a) + int (length rest)" by simp
  from read_tlv_len_progress [OF l] have l0: "0 \<le> tlv_len" and h: "1 < int (length hdr)"
    by simp_all
  from h have lt: "int (length pre) < int (length ?d)" by simp
  have "parse_ndef_tlv ?d [] 0 (int (length ?d)) 0
          = parse_ndef_tlv_loop ?d out (int (length pre)) (int (length ?d)) mc"
    by (rule scanner_at_result [OF s])
  also have "\<dots> = (case tlv_body ?d out (int (length pre)) mc of
        Inl e \<Rightarrow> Inl e
      | Inr (Return v out') \<Rightarrow> Inr (v, out')
      | Inr (Continue pos' mc' out') \<Rightarrow> parse_ndef_tlv_loop ?d out' pos' (int (length ?d)) mc')"
    by (rule parse_ndef_tlv_loop_step [OF lt])
  finally have r: "parse_ndef_tlv ?d [] 0 (int (length ?d)) 0 =
      (case tlv_body ?d out (int (length pre)) mc of
        Inl e \<Rightarrow> Inl e
      | Inr (Return v out') \<Rightarrow> Inr (v, out')
      | Inr (Continue pos' mc' out') \<Rightarrow> parse_ndef_tlv_loop ?d out' pos' (int (length ?d)) mc')" .
  show ?thesis
  proof (cases "t = NdefTlvNdefMessage")
    case False
    with ty have o: "t \<noteq> NdefTlvPadding" "t \<noteq> NdefTlvTerminator" "t \<noteq> NdefTlvNdefMessage"
      by (auto simp: NdefTlvPadding_def NdefTlvTerminator_def NdefTlvLockControl_def
            NdefTlvMemoryControl_def NdefTlvProprietary_def)
    from ty False l have b: "tlv_body ?d out (int (length pre)) mc
        = Inr (Continue (int (length ?a) + tlv_len) mc out)"
      unfolding tlv_body_other [OF t o] by (simp add: add.assoc)
    from parse_ndef_tlv_loop_drop [OF l0, of ?a rest out "int (length rest)" mc]
    have "parse_ndef_tlv_loop ?d out (int (length ?a) + tlv_len) (int (length ?d)) mc
            = parse_ndef_tlv_loop rest out tlv_len (int (length rest)) mc"
      by (simp add: add.assoc)
    with r b False show ?thesis by simp
  next
    case True
    from t have tm: "get_byte ?d (int (length pre)) = Inr NdefTlvNdefMessage" unfolding True .
    from parse_ndef_message_loop_drop [of 0 ?a rest out tlv_len "mc + 1"]
    have m: "parse_ndef_message_loop ?d out (int (length pre) + int (length hdr))
               (int (length pre) + int (length hdr) + tlv_len) (mc + 1)
             = shift_pos (int (length ?a)) (parse_ndef_message_loop rest out 0 tlv_len (mc + 1))"
      by (simp add: add.assoc)
    show ?thesis
    proof (cases "parse_ndef_message_loop rest out 0 tlv_len (mc + 1)")
      case (Inl e)
      with r True m show ?thesis unfolding tlv_body_message [OF tm l] by simp
    next
      case (Inr x)
      then obtain p out1 where x: "parse_ndef_message_loop rest out 0 tlv_len (mc + 1) = Inr (p, out1)"
        by (cases x) simp
      from parse_ndef_message_loop_mono [OF x] have "0 \<le> p" .
      from parse_ndef_tlv_loop_drop [OF this, of ?a rest out1 "int (length rest)" "mc + 1"]
      have "parse_ndef_tlv_loop ?d out1 (int (length ?a) + p) (int (length ?d)) (mc + 1)
              = parse_ndef_tlv_loop rest out1 p (int (length rest)) (mc + 1)"
        by (simp add: add.assoc)
      with r True m x show ?thesis unfolding tlv_body_message [OF tm l] by simp
    qed
  qed
qed

lemma shift_pos_shift_pos: "shift_pos j (shift_pos k res) = shift_pos (j + k) res"
  by (cases res) (auto simp: add.assoc)

lemma tlv_header_short:
  assumes "uint L < 0xFF"
  shows "get_byte (pre @ [t, L] @ rest) (int (length pre)) = Inr (uint t)"
    and "read_tlv_len (pre @ [t, L] @ rest) (int (length pre) + 1)
           = Inr (uint L, int (length pre) + int (length [t, L]))"
proof -
  have "get_byte (pre @ [t, L] @ rest) (int (length pre) + 0) = get_byte ([t, L] @ rest) 0"
    by (rule get_byte_drop) simp
  then show "get_byte (pre @ [t, L] @ rest) (int (length pre)) = Inr (uint t)"
    by (simp add: get_byte_nonneg)
  have "read_tlv_len (pre @ [t, L] @ rest) (int (length pre) + 1)
          = shift_snd (int (length pre)) (read_tlv_len ([t, L] @ rest) 1)"
    by (rule read_tlv_len_drop) simp
  also from assms have "read_tlv_len ([t, L] @ rest) 1 = Inr (uint L, 2)"
    by (simp add: read_tlv_len_def get_byte_nonneg Let_def)
  finally show "read_tlv_len (pre @ [t, L] @ rest) (int (length pre) + 1)
           = Inr (uint L, int (length pre) + int (length [t, L]))"
    by simp
qed

lemma tlv_header_long:
  shows "get_byte (pre @ [t, 0xFF, 0, L] @ rest) (int (length pre)) = Inr (uint t)"
    and "read_tlv_len (pre @ [t, 0xFF, 0, L] @ rest) (int (length pre) + 1)
           = Inr (uint L, int (length pre) + int (length [t, 0xFF, 0, L]))"
proof -
  have "get_byte (pre @ [t, 0xFF, 0, L] @ rest) (int (length pre) + 0)
          = get_byte ([t, 0xFF, 0, L] @ rest) 0"
    by (rule get_byte_drop) simp
  then show "get_byte (pre @ [t, 0xFF, 0, L] @ rest) (int (length pre)) = Inr (uint t)"
    by (simp add: get_byte_nonneg)
  have "read_tlv_len (pre @ [t, 0xFF, 0, L] @ rest) (int (length pre) + 1)
          = shift_snd (int (length pre)) (read_tlv_len ([t, 0xFF, 0, L] @ rest) 1)"
    by (rule read_tlv_len_drop) simp
  also have "read_tlv_len ([t, 0xFF, 0, L] @ rest) 1 = Inr (uint L, 4)"
    by (simp add: read_tlv_len_def get_byte_nonneg get_nonneg from_bytes_big_def Let_def)
  finally show "read_tlv_len (pre @ [t, 0xFF, 0, L] @ rest) (int (length pre) + 1)
           = Inr (uint L, int (length pre) + int (length [t, 0xFF, 0, L]))"
    by simp
qed

lemma tlv_long_form:
  assumes s: "scanner_at (pre @ [t, L] @ rest) (int (length pre)) mc out"
    and ty: "uint t = NdefTlvLockControl \<or> uint t = NdefTlvMemoryControl
              \<or> uint t = NdefTlvProprietary \<or> uint t = NdefTlvNdefMessage"
    and L: "uint L < 0xFF"
  shows "parse_ndef_tlv (pre @ [t, 0xFF, 0, L] @ rest) [] 0
             (int (length (pre @ [t, 0xFF, 0, L] @ rest))) 0
           = parse_ndef_tlv (pre @ [t, L] @ rest) [] 0 (int (length (pre @ [t, L] @ rest))) 0"
proof -
  have "agree (length pre + 1) (pre @ [t, L] @ rest) (pre @ [t, 0xFF, 0, L] @ rest)"
    by (simp add: agree_def)
  from agree_scanner_at [OF s this]
  have s2: "scanner_at (pre @ [t, 0xFF, 0, L] @ rest) (int (length pre)) mc out" by simp
  from parse_from_tlv_header [OF s tlv_header_short(1) ty tlv_header_short(2), OF L L]
       parse_from_tlv_header [OF s2 tlv_header_long(1) ty tlv_header_long(2)]
  show ?thesis by simp
qed

lemma record_long_form:
  assumes sr1: "drop_bit 4 (uint f1) AND 1 \<noteq> 0" and sr2: "drop_bit 4 (uint f2) AND 1 = 0"
    and cf: "drop_bit 5 (uint f2) AND 1 = drop_bit 5 (uint f1) AND 1"
    and il: "drop_bit 3 (uint f2) AND 1 = drop_bit 3 (uint f1) AND 1"
    and tnf: "uint f2 AND 7 = uint f1 AND 7"
  shows "parse_ndef_record (pre @ [f2, tlen, 0, 0, 0, plen] @ rest) out (int (length pre)) mn
           = shift_pos 3 (parse_ndef_record (pre @ [f1, tlen, plen] @ rest) out (int (length pre)) mn)"
proof -
  let ?r1 = "[f1, tlen, plen] @ rest" and ?r2 = "[f2, tlen, 0, 0, 0, plen] @ rest"
  let ?tail = "record_tail rest out (drop_bit 3 (uint f1) AND 1) (uint f1 AND 7) (uint tlen) (uint plen) 0"
  have u: "0 \<le> uint tlen" "0 \<le> uint plen" by simp_all
  from record_tail_drop [OF _ u, of 0 "[f1, tlen, plen]" rest out]
  have t1: "record_tail ?r1 out (drop_bit 3 (uint f1) AND 1) (uint f1 AND 7) (uint tlen) (uint plen) 3
              = shift_pos 3 ?tail"
    by simp
  from record_tail_drop [OF _ u, of 0 "[f2, tlen, 0, 0, 0, plen]" rest out]
  have t2: "record_tail ?r2 out (drop_bit 3 (uint f1) AND 1) (uint f1 AND 7) (uint tlen) (uint plen) 6
              = shift_pos 6 ?tail"
    by simp
  from sr1 have r1: "parse_ndef_record ?r1 out 0 mn =
      (if drop_bit 5 (uint f1) AND 1 \<noteq> 0 then Inl ChunkedRecord else shift_pos 3 ?tail)"
    unfolding t1 [symmetric]
    by (simp add: parse_ndef_record_tail get_byte_nonneg read_payload_len_def)
  from sr2 have r2: "parse_ndef_record ?r2 out 0 mn =
      (if drop_bit 5 (uint f1) AND 1 \<noteq> 0 then Inl ChunkedRecord else shift_pos 6 ?tail)"
    unfolding t2 [symmetric]
    by (simp add: parse_ndef_record_tail get_byte_nonneg get_nonneg read_payload_len_def
          from_bytes_big_def cf il tnf)
  from r1 r2 have e: "parse_ndef_record ?r2 out 0 mn = shift_pos 3 (parse_ndef_record ?r1 out 0 mn)"
    by (simp add: shift_pos_shift_pos)
  from parse_ndef_record_drop [of 0 pre ?r1 out mn] parse_ndef_record_drop [of 0 pre ?r2 out mn] e
  show ?thesis by (simp add: shift_pos_shift_pos add.commute)
qed

text \<open>
  C5, as stated, fails for a TLV that the scanner reaches in the long form only. In
  \<open>03 05 D1 01 01 54 03 01 FF 00 00\<close> the Text record declares a language tag of three
  bytes, read from indices 7 to 9; the scanner then reads at index 7 the LockControl TLV
  \<open>01 FF 00 00\<close>, of length 0 in long form, and the result is \<open>Text\<close>. With the short form
  \<open>01 00\<close> of the same TLV the buffer is two bytes shorter, the language tag no longer
  fits, and the result is the out-of-bounds error.
\<close>

theorem long_form_tlv_unlike_short_form:
  "scanner_at ([0x03, 0x05, 0xD1, 0x01, 0x01, 0x54, 0x03] @ [0x01, 0xFF, 0x00, 0x00] @ [])
       7 1 (ustr ''Text'' @ nl @ nl)
   \<and> get_byte ([0x03, 0x05, 0xD1, 0x01, 0x01, 0x54, 0x03] @ [0x01, 0xFF, 0x00, 0x00] @ []) 7
       = Inr NdefTlvLockControl
   \<and> read_tlv_len ([0x03, 0x05, 0xD1, 0x01, 0x01, 0x54, 0x03] @ [0x01, 0xFF, 0x00, 0x00] @ []) 8
       = Inr (0, 11)
   \<and> parse_ndef ([0x03, 0x05, 0xD1, 0x01, 0x01, 0x54, 0x03] @ [0x01, 0xFF, 0x00, 0x00] @ [])
       = ustr ''Text''
   \<and> parse_ndef ([0x03, 0x05, 0xD1, 0x01, 0x01, 0x54, 0x03] @ [0x01, 0x00] @ [])
       = ustr ''Error during parsing: Out-of-bounds access in NDEF data''
   \<and> parse_ndef ([0x03, 0x05, 0xD1, 0x01, 0x01, 0x54, 0x03] @ [0x01, 0xFF, 0x00, 0x00] @ [])
       \<noteq> parse_ndef ([0x03, 0x05, 0xD1, 0x01, 0x01, 0x54, 0x03] @ [0x01, 0x00] @ [])"
proof -
  let ?d = "[0x03, 0x05, 0xD1, 0x01, 0x01, 0x54, 0x03, 0x01, 0xFF, 0x00, 0x00] :: byte list"
  have "scanner_at ?d 7 1 (ustr ''Text'' @ nl @ nl)"
    by (rule scanner_next [OF scanner_start]) (simp_all add: ndef_eval)
  then show ?thesis by (simp add: ndef_eval)
qed

text \<open>
  C5, amended. First part: let the scanner, during the parse of the buffer that holds
  the short form, read at the end of \<open>pre\<close> a TLV of type LockControl, MemoryControl,
  Proprietary or NdefMessage whose length \<open>L\<close> is below \<open>0xFF\<close>. Replacing the length
  byte by the long form \<open>FF 00 L\<close> and leaving all other bytes as they are gives the same
  message count and output (or the same error), hence the same result of \<open>parse_ndef\<close>.
  Nothing is said of a TLV that the scanner reaches in the long form only.
  Second part: let two flags bytes differ in the SR bit only, as far as the decoder
  looks at them (same CF, IL and TNF). A record with SR set and the one-byte payload
  length \<open>plen\<close> decodes like the record with SR clear and the four-byte length
  \<open>00 00 00 plen\<close>: same error, or same output with the cursor three bytes further.
\<close>

theorem long_form_decodes_like_short_form:
  "(scanner_at (pre @ [t, L] @ rest) (int (length pre)) mc out
      \<and> (uint t = NdefTlvLockControl \<or> uint t = NdefTlvMemoryControl
            \<or> uint t = NdefTlvProprietary \<or> uint t = NdefTlvNdefMessage)
      \<and> uint L < 0xFF
    \<longrightarrow> parse_ndef_tlv (pre @ [t, 0xFF, 0, L] @ rest) [] 0
            (int (length (pre @ [t, 0xFF, 0, L] @ rest))) 0
          = parse_ndef_tlv (pre @ [t, L] @ rest) [] 0 (int (length (pre @ [t, L] @ rest))) 0
        \<and> parse_ndef (pre @ [t, 0xFF, 0, L] @ rest) = parse_ndef (pre @ [t, L] @ rest))
   \<and> (drop_bit 4 (uint flags_sr) AND 1 \<noteq> 0 \<and> drop_bit 4 (uint flags_lr) AND 1 = 0
      \<and> drop_bit 5 (uint flags_lr) AND 1 = drop_bit 5 (uint flags_sr) AND 1
      \<and> drop_bit 3 (uint flags_lr) AND 1 = drop_bit 3 (uint flags_sr) AND 1
      \<and> uint flags_lr AND 7 = uint flags_sr AND 7
    \<longrightarrow> (case parse_ndef_record (rpre @ [flags_sr, tlen, plen] @ rrest) rout (int (length rpre)) mn of
           Inl e \<Rightarrow>
             parse_ndef_record (rpre @ [flags_lr, tlen, 0, 0, 0, plen] @ rrest) rout (int (length rpre)) mn
               = Inl e
         | Inr (p, out') \<Rightarrow>
             parse_ndef_record (rpre @ [flags_lr, tlen, 0, 0, 0, plen] @ rrest) rout (int (length rpre)) mn
               = Inr (p + 3, out')))"
proof (intro conjI impI)
  assume a: "scanner_at (pre @ [t, L] @ rest) (int (length pre)) mc out
      \<and> (uint t = NdefTlvLockControl \<or> uint t = NdefTlvMemoryControl
            \<or> uint t = NdefTlvProprietary \<or> uint t = NdefTlvNdefMessage)
      \<and> uint L < 0xFF"
  then have s: "scanner_at (pre @ [t, L] @ rest) (int (length pre)) mc out"
    and ty: "uint t = NdefTlvLockControl \<or> uint t = NdefTlvMemoryControl
            \<or> uint t = NdefTlvProprietary \<or> uint t = NdefTlvNdefMessage"
    and L: "uint L < 0xFF"
    by blast+
  show e: "parse_ndef_tlv (pre @ [t, 0xFF, 0, L] @ rest) [] 0
            (int (length (pre @ [t, 0xFF, 0, L] @ rest))) 0
          = parse_ndef_tlv (pre @ [t, L] @ rest) [] 0 (int (length (pre @ [t, L] @ rest))) 0"
    by (rule tlv_long_form [OF s ty L])
  show "parse_ndef (pre @ [t, 0xFF, 0, L] @ rest) = parse_ndef (pre @ [t, L] @ rest)"
    unfolding parse_ndef_def e ..
next
  assume "drop_bit 4 (uint flags_sr) AND 1 \<noteq> 0 \<and> drop_bit 4 (uint flags_lr) AND 1 = 0
      \<and> drop_bit 5 (uint flags_lr) AND 1 = drop_bit 5 (uint flags_sr) AND 1
      \<and> drop_bit 3 (uint flags_lr) AND 1 = drop_bit 3 (uint flags_sr) AND 1
      \<and> uint flags_lr AND 7 = uint flags_sr AND 7"
  then have "parse_ndef_record (rpre @ [flags_lr, tlen, 0, 0, 0, plen] @ rrest) rout (int (length rpre)) mn
      = shift_pos 3 (parse_ndef_record (rpre @ [flags_sr, tlen, plen] @ rrest) rout (int (length rpre)) mn)"
    using record_long_form [of flags_sr flags_lr rpre tlen plen rrest rout mn] by blast
  then show "case parse_ndef_record (rpre @ [flags_sr, tlen, plen] @ rrest) rout (int (length rpre)) mn of
           Inl e \<Rightarrow>
             parse_ndef_record (rpre @ [flags_lr, tlen, 0, 0, 0, plen] @ rrest) rout (int (length rpre)) mn
               = Inl e
         | Inr (p, out') \<Rightarrow>
             parse_ndef_record (rpre @ [flags_lr, tlen, 0, 0, 0, plen] @ rrest) rout (int (length rpre)) mn
               = Inr (p + 3, out')"
    by (simp add: add.commute split: sum.splits)
qed

theorem long_form_decodes_like_short_form_witness:
  "scanner_at [0x00, 0x03, 0x05, 0xD1, 0x01, 0x01, 0x55, 0x00, 0xFE] 1 0 []
   \<and> parse_ndef [0x00, 0x03, 0xFF, 0x00, 0x05, 0xD1, 0x01, 0x01, 0x55, 0x00, 0xFE]
       = parse_ndef [0x00, 0x03, 0x05, 0xD1, 0x01, 0x01, 0x55, 0x00, 0xFE]
   \<and> parse_ndef_record [0x03, 0x05, 0xD1, 0x01, 0x01, 0x55, 0x00, 0xFE] [] 2 1
       = Inr (7, ustr ''URI'' @ nl @ nl)
   \<and> parse_ndef_record [0x03, 0x05, 0xC1, 0x01, 0x00, 0x00, 0x00, 0x01, 0x55, 0x00, 0xFE] [] 2 1
       = Inr (10, ustr ''URI'' @ nl @ nl)"
proof -
  have s: "scanner_at ([0x00] @ [0x03, 0x05] @ [0xD1, 0x01, 0x01, 0x55, 0x00, 0xFE]) 1 0 []"
    by (rule scanner_next [OF scanner_start]) (simp_all add: ndef_eval)
  have r: "parse_ndef_record ([0x03, 0x05] @ [0xD1, 0x01, 0x01] @ [0x55, 0x00, 0xFE]) [] 2 1
             = Inr (7, ustr ''URI'' @ nl @ nl)"
    by (simp add: ndef_eval)
  have f: "drop_bit 4 (uint (0xD1 :: byte)) AND 1 \<noteq> 0 \<and> drop_bit 4 (uint (0xC1 :: byte)) AND 1 = 0
      \<and> drop_bit 5 (uint (0xC1 :: byte)) AND 1 = drop_bit 5 (uint (0xD1 :: byte)) AND 1
      \<and> drop_bit 3 (uint (0xC1 :: byte)) AND 1 = drop_bit 3 (uint (0xD1 :: byte)) AND 1
      \<and> uint (0xC1 :: byte) AND 7 = uint (0xD1 :: byte) AND 7"
    by simp
  from long_form_decodes_like_short_form
         [where pre = "[0x00]" and t = "0x03" and L = "0x05"
            and rest = "[0xD1, 0x01, 0x01, 0x55, 0x00, 0xFE]" and mc = 0 and out = "[]"
            and flags_sr = "0xD1" and flags_lr = "0xC1" and rpre = "[0x03, 0x05]"
            and tlen = "0x01" and plen = "0x01" and rrest = "[0x55, 0x00, 0xFE]" and rout = "[]" and mn = 1]
       s r f
  show ?thesis by (simp add: NdefTlvNdefMessage_def)
qed

end
